theory Spec2Isabelle
  imports Complex_Main "HOL-Library.AList" "HOL-Library.Sublist"
begin

section \<open>Strings, paths and number formatting\<close>

text \<open>
  The program is \<^verbatim>\<open>sync_libraries.py\<close>: class \<^verbatim>\<open>ComicSyncManager\<close>.
  Python strings are modelled as HOL strings over ASCII; \<^verbatim>\<open>str.isalnum\<close> is the
  ASCII part of Python's predicate (letters and decimal digits).
\<close>

definition isalnum :: "char \<Rightarrow> bool" where
  "isalnum c =
     (let n = of_char c :: nat
      in (48 \<le> n \<and> n \<le> 57) \<or> (65 \<le> n \<and> n \<le> 90) \<or> (97 \<le> n \<and> n \<le> 122))"

text \<open>\<^verbatim>\<open>str.isspace\<close> on ASCII: TAB, LF, VT, FF, CR, FS, GS, RS, US and the space.\<close>

definition isspace :: "char \<Rightarrow> bool" where
  "isspace c =
     (let n = of_char c :: nat
      in (9 \<le> n \<and> n \<le> 13) \<or> (28 \<le> n \<and> n \<le> 32))"

text \<open>\<^verbatim>\<open>s.strip()\<close>: leading and trailing whitespace removed.\<close>

definition strip :: "string \<Rightarrow> string" where
  "strip s = rev (dropWhile isspace (rev (dropWhile isspace s)))"

text \<open>
  \<^verbatim>\<open>"".join(c for c in s if c.isalnum() or c in (' ', '-', '_')).strip()\<close>
\<close>

definition keep_char :: "char \<Rightarrow> bool" where
  "keep_char c = (isalnum c \<or> c = CHR '' '' \<or> c = CHR ''-'' \<or> c = CHR ''_'')"

definition clean :: "string \<Rightarrow> string" where
  "clean s = strip (filter keep_char s)"

text \<open>
  \<^verbatim>\<open>os.path.join(a, b)\<close> of \<^verbatim>\<open>posixpath\<close>: an absolute second component replaces
  the first; no separator is added after an empty first component or after one that
  ends in a separator.
\<close>

definition path_join :: "string \<Rightarrow> string \<Rightarrow> string" where
  "path_join a b =
     (if b \<noteq> [] \<and> hd b = CHR ''/'' then b
      else if a = [] \<or> last a = CHR ''/'' then a @ b
      else a @ ''/'' @ b)"

text \<open>Decimal digits of a natural number, as \<^verbatim>\<open>str\<close> prints them.\<close>

definition digit_char :: "nat \<Rightarrow> char" where
  "digit_char d = ''0123456789'' ! d"

fun digits :: "nat \<Rightarrow> string" where
  "digits n =
     (if n < 10 then [digit_char n]
      else digits (n div 10) @ [digit_char (n mod 10)])"

declare digits.simps [simp del]

text \<open>
  Rounding to the nearest integer, ties to even: the rounding of \<^verbatim>\<open>'%.1f'\<close>, which
  rounds the exact value of the float.
\<close>

definition round_half_even :: "rat \<Rightarrow> int" where
  "round_half_even x =
     (let f = \<lfloor>x\<rfloor>; r = x - of_int f
      in if r < 1 / 2 then f
         else if 1 / 2 < r then f + 1
         else if even f then f else f + 1)"

text \<open>
  Sign-aware zero padding of the format flag \<^verbatim>\<open>0\<close> with a minimum TOTAL width
  \<open>w\<close>: zeros go between the sign and the digits until the whole field has \<open>w\<close>
  characters.
\<close>

definition zero_pad :: "nat \<Rightarrow> string \<Rightarrow> string \<Rightarrow> string" where
  "zero_pad w sg body = sg @ replicate (w - (length sg + length body)) CHR ''0'' @ body"

text \<open>
  \<^verbatim>\<open>f"{x:02.1f}"\<close> for a finite float whose exact value is the rational \<open>x\<close>:
  fixed point, one digit after the point, field width 2, zero padded.
\<close>

definition format_02_1f :: "rat \<Rightarrow> string" where
  "format_02_1f x =
     (let t = nat (round_half_even (\<bar>x\<bar> * 10));
          body = digits (t div 10) @ ''.'' @ digits (t mod 10)
      in zero_pad 2 (if x < 0 then ''-'' else '''') body)"

section \<open>The catalog\<close>

text \<open>
  A column value of the store that the program only compares:
  \<^verbatim>\<open>None\<close>, an integer, a float (its exact value) or a text.
\<close>

datatype sqlval = Null | IntV int | RealV rat | TextV string

text \<open>Python's \<^verbatim>\<open>==\<close> on such values: an int and a float are equal when their values are.\<close>

fun py_eq :: "sqlval \<Rightarrow> sqlval \<Rightarrow> bool" where
  "py_eq (IntV i) (RealV r) = (of_int i = r)"
| "py_eq (RealV r) (IntV i) = (r = of_int i)"
| "py_eq a b = (a = b)"

record format_data =
  name :: string
  last_modified :: sqlval
  size :: sqlval

record metadata =
  author_sort :: sqlval
  timestamp :: sqlval
  pubdate :: sqlval

record book_data =
  title :: string
  path :: string
  series :: "string option"
  series_index :: "rat option"
  formats :: "(string \<times> format_data) list"
  metadata :: metadata

text \<open>Truthiness of \<^verbatim>\<open>book_data['series']\<close> and \<^verbatim>\<open>book_data['series_index']\<close>.\<close>

definition truthy_str :: "string option \<Rightarrow> bool" where
  "truthy_str s = (case s of None \<Rightarrow> False | Some v \<Rightarrow> v \<noteq> [])"

definition truthy_num :: "rat option \<Rightarrow> bool" where
  "truthy_num x = (case x of None \<Rightarrow> False | Some v \<Rightarrow> v \<noteq> 0)"

text \<open>
  The path computed by \<^verbatim>\<open>_get_target_path\<close>: the folder and the file inside it.
\<close>

definition target_folder :: "string \<Rightarrow> book_data \<Rightarrow> string" where
  "target_folder output_path b =
     (if truthy_str (series b) then path_join output_path (clean (the (series b)))
      else path_join output_path ''No Series'')"

definition target_title :: "book_data \<Rightarrow> string" where
  "target_title b =
     (if truthy_str (series b) \<and> truthy_num (series_index b)
      then format_02_1f (the (series_index b)) @ '' - '' @ clean (title b)
      else clean (title b))"

definition target_path :: "string \<Rightarrow> book_data \<Rightarrow> string \<Rightarrow> string" where
  "target_path output_path b format_type =
     path_join (target_folder output_path b) (target_title b @ ''.'' @ format_type)"

section \<open>The file system\<close>

text \<open>
  The output tree is a finite table from positions (the names from the output root down
  to an entry; \<open>[]\<close> is the root itself) to nodes. A directory carries its write
  permission: entries are created and deleted in a directory only when it is writable.
  A symbolic link holds the path it points to, which is a file of the library. The
  library is a separate store of files by path. Only entries with proper names whose
  ancestors are all directories can be reached; the others are never seen.
\<close>

datatype error =
    FileNotFoundError | PermissionError | FileExistsError | IsADirectoryError
  | NotADirectoryError | SameFileError | UnicodeDecodeError | JSONDecodeError | NameError

text \<open>
  What reading a file gives: bytes that are no text (\<^verbatim>\<open>open(..., 'r')\<close> cannot
  decode them), a text that is no JSON document, or the document that \<^verbatim>\<open>json.dump\<close>
  writes for a cache.
\<close>

type_synonym cache = "(string \<times> book_data) list"

datatype content = Binary nat | Text_not_json | Cache_json cache

datatype node = Dir bool | File content | Link string

type_synonym pos = "string list"

type_synonym tree = "(pos \<times> node) list"

datatype event =
    Starting_sync string
  | Corrupted_cache
  | Symlink_created string string
  | File_copied string string
  | Invalid_method
  | Error_creating string error
  | Removing string
  | Sync_complete string

record world =
  tree :: tree
  lib :: "string \<rightharpoonup> content"
  log :: "event list"

definition valid_name :: "string \<Rightarrow> bool" where
  "valid_name n = (n \<noteq> [] \<and> CHR ''/'' \<notin> set n)"

definition is_dir_at :: "tree \<Rightarrow> pos \<Rightarrow> bool" where
  "is_dir_at t p = (case map_of t p of Some (Dir w) \<Rightarrow> True | _ \<Rightarrow> False)"

definition writable_at :: "tree \<Rightarrow> pos \<Rightarrow> bool" where
  "writable_at t p = (case map_of t p of Some (Dir w) \<Rightarrow> w | _ \<Rightarrow> False)"

definition reachable :: "tree \<Rightarrow> pos \<Rightarrow> bool" where
  "reachable t p =
     (list_all valid_name p \<and> (\<forall>q \<in> set (butlast (prefixes p)). is_dir_at t q))"

text \<open>The node found at a position, if the position can be reached.\<close>

definition node_at :: "tree \<Rightarrow> pos \<Rightarrow> node option" where
  "node_at t p = (if reachable t p then map_of t p else None)"

text \<open>Splitting a path at its separators; empty components do not count.\<close>

fun path_fields :: "string \<Rightarrow> string list" where
  "path_fields [] = [[]]"
| "path_fields (c # cs) =
     (if c = CHR ''/'' then [] # path_fields cs
      else (case path_fields cs of [] \<Rightarrow> [[c]] | f # fs \<Rightarrow> (c # f) # fs))"

definition comps :: "string \<Rightarrow> string list" where
  "comps s = filter (\<lambda>f. f \<noteq> []) (path_fields s)"

definition is_abs :: "string \<Rightarrow> bool" where
  "is_abs s = (s \<noteq> [] \<and> hd s = CHR ''/'')"

text \<open>The position a path names in the tree below \<open>out\<close>, when it lies there.\<close>

definition locate :: "string \<Rightarrow> string \<Rightarrow> pos option" where
  "locate out s =
     (let r = comps out; c = comps s
      in if is_abs out = is_abs s \<and> take (length r) c = r
         then Some (drop (length r) c) else None)"

text \<open>The path under which \<^verbatim>\<open>os.walk\<close> reports a position.\<close>

definition path_of :: "string \<Rightarrow> pos \<Rightarrow> string" where
  "path_of out p = foldl path_join out p"


subsection \<open>Operations of \<^verbatim>\<open>os\<close> and \<^verbatim>\<open>shutil\<close>\<close>

text \<open>
  Each operation takes the output root and the path as the program writes it. A path
  that does not lie below the output root names nothing. An operation that fails
  leaves the store as it was.
\<close>

definition exists_at :: "world \<Rightarrow> pos \<Rightarrow> bool" where
  "exists_at w p =
     (case node_at (tree w) p of
        None \<Rightarrow> False
      | Some (Link l) \<Rightarrow> lib w l \<noteq> None
      | Some _ \<Rightarrow> True)"

text \<open>\<^verbatim>\<open>os.path.exists\<close>: symbolic links are followed, a dangling link does not exist.\<close>

definition os_path_exists :: "string \<Rightarrow> world \<Rightarrow> string \<Rightarrow> bool" where
  "os_path_exists out w s =
     (case locate out s of None \<Rightarrow> False | Some p \<Rightarrow> exists_at w p)"

text \<open>Whether an entry can be created at a position: the reason why not, if any.\<close>

definition create_error :: "tree \<Rightarrow> pos \<Rightarrow> error option" where
  "create_error t p =
     (if p = [] then None
      else if \<not> valid_name (last p) then Some FileNotFoundError
      else case node_at t (butlast p) of
             None \<Rightarrow> Some FileNotFoundError
           | Some (Dir wr) \<Rightarrow> if wr then None else Some PermissionError
           | Some _ \<Rightarrow> Some NotADirectoryError)"

definition clear_below :: "pos \<Rightarrow> tree \<Rightarrow> tree" where
  "clear_below p t = filter (\<lambda>(k, n). \<not> strict_prefix p k) t"

text \<open>\<^verbatim>\<open>os.mkdir\<close>: the new directory is empty.\<close>

definition mkdir_at :: "tree \<Rightarrow> pos \<Rightarrow> error + tree" where
  "mkdir_at t p =
     (if node_at t p \<noteq> None then Inl FileExistsError
      else case create_error t p of
             Some e \<Rightarrow> Inl e
           | None \<Rightarrow> Inr (AList.update p (Dir True) (clear_below p t)))"

text \<open>
  \<^verbatim>\<open>os.makedirs(name, exist_ok=True)\<close>, level by level from the root down: a level
  that is a directory is kept, a missing one is created, anything else is an error.
\<close>

fun makedirs_levels :: "tree \<Rightarrow> pos list \<Rightarrow> error + tree" where
  "makedirs_levels t [] = Inr t"
| "makedirs_levels t (q # qs) =
     (if is_dir_at t q \<and> reachable t q then makedirs_levels t qs
      else case mkdir_at t q of
             Inl e \<Rightarrow> Inl (if qs \<noteq> [] \<and> e = FileExistsError then NotADirectoryError else e)
           | Inr t' \<Rightarrow> makedirs_levels t' qs)"

definition os_makedirs :: "string \<Rightarrow> string \<Rightarrow> world \<Rightarrow> error + world" where
  "os_makedirs out s w =
     (case locate out s of
        None \<Rightarrow> Inl FileNotFoundError
      | Some p \<Rightarrow>
          (case makedirs_levels (tree w) (prefixes p) of
             Inl e \<Rightarrow> Inl e
           | Inr t' \<Rightarrow> Inr (w\<lparr>tree := t'\<rparr>)))"

text \<open>\<^verbatim>\<open>os.remove\<close>: deletes a file or a link, never a directory.\<close>

definition remove_at :: "tree \<Rightarrow> pos \<Rightarrow> error + tree" where
  "remove_at t p =
     (case node_at t p of
        None \<Rightarrow> Inl FileNotFoundError
      | Some (Dir wr) \<Rightarrow> Inl IsADirectoryError
      | Some _ \<Rightarrow>
          if p \<noteq> [] \<and> \<not> writable_at t (butlast p) then Inl PermissionError
          else Inr (AList.delete p t))"

definition os_remove :: "string \<Rightarrow> string \<Rightarrow> world \<Rightarrow> error + world" where
  "os_remove out s w =
     (case locate out s of
        None \<Rightarrow> Inl FileNotFoundError
      | Some p \<Rightarrow>
          (case remove_at (tree w) p of
             Inl e \<Rightarrow> Inl e
           | Inr t' \<Rightarrow> Inr (w\<lparr>tree := t'\<rparr>)))"

text \<open>\<^verbatim>\<open>os.symlink(src, dst)\<close>: nothing may be at \<open>dst\<close>, not even a dangling link.\<close>

definition os_symlink :: "string \<Rightarrow> string \<Rightarrow> string \<Rightarrow> world \<Rightarrow> error + world" where
  "os_symlink out src dst w =
     (case locate out dst of
        None \<Rightarrow> Inl FileNotFoundError
      | Some p \<Rightarrow>
          if node_at (tree w) p \<noteq> None then Inl FileExistsError
          else case create_error (tree w) p of
                 Some e \<Rightarrow> Inl e
               | None \<Rightarrow> Inr (w\<lparr>tree := AList.update p (Link src) (tree w)\<rparr>))"

text \<open>
  \<^verbatim>\<open>open(path, 'w')\<close> and writing: an existing file is overwritten, a link is
  written through, a missing file is created.
\<close>

definition write_at :: "pos \<Rightarrow> content \<Rightarrow> world \<Rightarrow> error + world" where
  "write_at p c w =
     (case node_at (tree w) p of
        Some (Dir wr) \<Rightarrow> Inl IsADirectoryError
      | Some (File old) \<Rightarrow> Inr (w\<lparr>tree := AList.update p (File c) (tree w)\<rparr>)
      | Some (Link l) \<Rightarrow> Inr (w\<lparr>lib := (lib w)(l \<mapsto> c)\<rparr>)
      | None \<Rightarrow>
          (case create_error (tree w) p of
             Some e \<Rightarrow> Inl e
           | None \<Rightarrow> Inr (w\<lparr>tree := AList.update p (File c) (tree w)\<rparr>)))"

definition basename :: "string \<Rightarrow> string" where
  "basename s = last (path_fields s)"

text \<open>
  \<^verbatim>\<open>shutil.copy(src, dst)\<close>: a directory at \<open>dst\<close> receives the file under the
  source's name; the source is read from the library.
\<close>

definition shutil_copy :: "string \<Rightarrow> string \<Rightarrow> string \<Rightarrow> world \<Rightarrow> error + world" where
  "shutil_copy out src dst w =
     (case locate out dst of
        None \<Rightarrow> Inl FileNotFoundError
      | Some p0 \<Rightarrow>
          (let p = (if is_dir_at (tree w) p0 \<and> reachable (tree w) p0
                    then p0 @ [basename src] else p0)
           in if node_at (tree w) p = Some (Link src) \<and> lib w src \<noteq> None
              then Inl SameFileError
              else case lib w src of
                     None \<Rightarrow> Inl FileNotFoundError
                   | Some c \<Rightarrow> write_at p c w))"

text \<open>Reading a file as text.\<close>

definition read_at :: "world \<Rightarrow> pos \<Rightarrow> error + content" where
  "read_at w p =
     (case node_at (tree w) p of
        None \<Rightarrow> Inl FileNotFoundError
      | Some (Dir wr) \<Rightarrow> Inl IsADirectoryError
      | Some (File c) \<Rightarrow> Inr c
      | Some (Link l) \<Rightarrow> (case lib w l of None \<Rightarrow> Inl FileNotFoundError | Some c \<Rightarrow> Inr c))"

text \<open>\<^verbatim>\<open>os.listdir\<close> of a directory: the names of its entries.\<close>

definition listdir_at :: "tree \<Rightarrow> pos \<Rightarrow> string list" where
  "listdir_at t d =
     map last (filter (\<lambda>k. k \<noteq> [] \<and> butlast k = d \<and> valid_name (last k))
                      (remdups (map fst t)))"

text \<open>\<^verbatim>\<open>os.rmdir\<close>: the directory must be empty.\<close>

definition rmdir_at :: "tree \<Rightarrow> pos \<Rightarrow> error + tree" where
  "rmdir_at t p =
     (case node_at t p of
        None \<Rightarrow> Inl FileNotFoundError
      | Some (Dir wr) \<Rightarrow>
          if listdir_at t p \<noteq> [] then Inl FileExistsError
          else if p \<noteq> [] \<and> \<not> writable_at t (butlast p) then Inl PermissionError
          else Inr (AList.delete p t)
      | Some _ \<Rightarrow> Inl NotADirectoryError)"


text \<open>
  \<^verbatim>\<open>os.walk(top)\<close>: one triple (path, directory names, file names) for every
  directory that can be reached. A link is a file name: links point to library files.
  The triples come in the order of the table; the program collects what it finds in a
  set. Nothing is listed for an empty path or when the root is not a directory.
\<close>

definition subdirs :: "tree \<Rightarrow> pos \<Rightarrow> string list" where
  "subdirs t d = filter (\<lambda>n. is_dir_at t (d @ [n])) (listdir_at t d)"

definition files_in :: "tree \<Rightarrow> pos \<Rightarrow> string list" where
  "files_in t d = filter (\<lambda>n. \<not> is_dir_at t (d @ [n])) (listdir_at t d)"

definition walk_dirs :: "tree \<Rightarrow> pos list" where
  "walk_dirs t = filter (\<lambda>d. reachable t d \<and> is_dir_at t d) (remdups (map fst t))"

definition os_walk :: "string \<Rightarrow> tree \<Rightarrow> (string \<times> string list \<times> string list) list" where
  "os_walk out t =
     (if out = [] then []
      else map (\<lambda>d. (path_of out d, subdirs t d, files_in t d)) (walk_dirs t))"

text \<open>
  \<^verbatim>\<open>os.walk(top, topdown=False)\<close>: the triple of a directory comes after the
  triples of everything below it.
\<close>

function post_dirs :: "tree \<Rightarrow> pos \<Rightarrow> (pos \<times> string list) list"
  and post_list :: "tree \<Rightarrow> pos \<Rightarrow> string list \<Rightarrow> (pos \<times> string list) list" where
  "post_dirs t d = post_list t d (subdirs t d) @ [(d, subdirs t d)]"
| "post_list t d [] = []"
| "post_list t d (n # ns) =
     (if d @ [n] \<in> fst ` set t then post_dirs t (d @ [n]) else []) @ post_list t d ns"
  by pat_completeness auto

lemma key_length_le: "k \<in> fst ` set t \<Longrightarrow> length k \<le> sum_list (map (length \<circ> fst) t)"
  by (induction t) fastforce+

termination post_dirs
proof (relation "measures
    [\<lambda>x. case x of
        Inl (t, d) \<Rightarrow> 2 * (Suc (sum_list (map (length \<circ> fst) t)) - length d) + 1
      | Inr (t, d, ns) \<Rightarrow> 2 * (Suc (sum_list (map (length \<circ> fst) t)) - length d),
     \<lambda>x. case x of Inl (t, d) \<Rightarrow> 0 | Inr (t, d, ns) \<Rightarrow> length ns]", goal_cases)
  case 1
  show ?case by simp
next
  case (2 t d)
  show ?case by simp
next
  case (3 t d n ns)
  then have "length (d @ [n]) \<le> sum_list (map (length \<circ> fst) t)"
    using key_length_le by blast
  then show ?case by (simp, arith)
next
  case (4 t d n ns)
  show ?case by simp
qed

declare post_dirs.simps [simp del]

definition os_walk_bottom_up :: "string \<Rightarrow> tree \<Rightarrow> (string \<times> string list) list" where
  "os_walk_bottom_up out t =
     (if out = [] \<or> \<not> is_dir_at t [] then []
      else map (\<lambda>(d, names). (path_of out d, names)) (post_dirs t []))"

definition os_listdir :: "string \<Rightarrow> string \<Rightarrow> world \<Rightarrow> error + string list" where
  "os_listdir out s w =
     (case locate out s of
        None \<Rightarrow> Inl FileNotFoundError
      | Some p \<Rightarrow>
          (case node_at (tree w) p of
             None \<Rightarrow> Inl FileNotFoundError
           | Some (Dir wr) \<Rightarrow> Inr (listdir_at (tree w) p)
           | Some _ \<Rightarrow> Inl NotADirectoryError))"

definition os_rmdir :: "string \<Rightarrow> string \<Rightarrow> world \<Rightarrow> error + world" where
  "os_rmdir out s w =
     (case locate out s of
        None \<Rightarrow> Inl FileNotFoundError
      | Some p \<Rightarrow>
          (case rmdir_at (tree w) p of
             Inl e \<Rightarrow> Inl e
           | Inr t' \<Rightarrow> Inr (w\<lparr>tree := t'\<rparr>)))"

text \<open>\<^verbatim>\<open>os.path.dirname\<close>: up to the last separator, trailing separators removed.\<close>

definition dirname :: "string \<Rightarrow> string" where
  "dirname s =
     (let hd_part = rev (dropWhile (\<lambda>c. c \<noteq> CHR ''/'') (rev s))
      in if hd_part \<noteq> [] \<and> \<not> list_all (\<lambda>c. c = CHR ''/'') hd_part
         then rev (dropWhile (\<lambda>c. c = CHR ''/'') (rev hd_part))
         else hd_part)"

text \<open>\<^verbatim>\<open>str.lower\<close> on ASCII and \<^verbatim>\<open>str.endswith\<close>.\<close>

definition lower_char :: "char \<Rightarrow> char" where
  "lower_char c =
     (let n = of_char c :: nat in if 65 \<le> n \<and> n \<le> 90 then char_of (n + 32) else c)"

definition lower :: "string \<Rightarrow> string" where
  "lower s = map lower_char s"

definition endswith :: "string \<Rightarrow> string \<Rightarrow> bool" where
  "endswith s x = suffix x s"

text \<open>\<^verbatim>\<open>str(k)\<close> of an integer.\<close>

definition str_int :: "int \<Rightarrow> string" where
  "str_int k = (if k < 0 then ''-'' @ digits (nat (- k)) else digits (nat k))"

section \<open>The sync manager\<close>

text \<open>
  The manager's paths, and the module's global \<^verbatim>\<open>LIBRARY_METHOD\<close> (\<open>None\<close> when
  the global is not defined).
\<close>

record manager =
  library_path :: string
  output_path :: string
  library_method :: "string option"

definition metadata_cache_file :: "manager \<Rightarrow> string" where
  "metadata_cache_file M = path_join (output_path M) ''.metadata_cache.json''"

definition default_log_path :: "manager \<Rightarrow> string" where
  "default_log_path M = path_join (output_path M) ''sync_log.txt''"

definition logging :: "event \<Rightarrow> world \<Rightarrow> world" where
  "logging e w = w\<lparr>log := log w @ [e]\<rparr>"

subsection \<open>\<^verbatim>\<open>_get_metadata_from_db\<close>\<close>

text \<open>
  The store is the table that the query's joins produce, one record per row, with the
  tag name of the row; the \<^verbatim>\<open>WHERE\<close> clause of the query selects from it.
\<close>

record row =
  r_id :: int
  r_title :: string
  r_path :: string
  r_series_name :: "string option"
  r_series_index :: "rat option"
  r_format :: string
  r_name :: string
  r_last_modified :: sqlval
  r_author_sort :: sqlval
  r_timestamp :: sqlval
  r_pubdate :: sqlval
  r_size :: sqlval
  r_tag :: string

type_synonym catalog = "(int \<times> book_data) list"

definition fetchall :: "row list \<Rightarrow> string \<Rightarrow> row list" where
  "fetchall db tag =
     filter (\<lambda>r. r_tag r = tag \<and> (lower (r_format r) = ''cbr'' \<or> lower (r_format r) = ''cbz'')) db"

definition new_book :: "row \<Rightarrow> book_data" where
  "new_book r =
     \<lparr>title = r_title r, path = r_path r, series = r_series_name r,
      series_index = r_series_index r, formats = [],
      metadata = \<lparr>author_sort = r_author_sort r, timestamp = r_timestamp r,
                  pubdate = r_pubdate r\<rparr>\<rparr>"

definition add_format :: "row \<Rightarrow> book_data \<Rightarrow> book_data" where
  "add_format r b =
     b\<lparr>formats := AList.update (lower (r_format r))
          \<lparr>name = r_name r, last_modified = r_last_modified r, size = r_size r\<rparr> (formats b)\<rparr>"

definition add_row :: "catalog \<Rightarrow> row \<Rightarrow> catalog" where
  "add_row result r =
     (let result' = (if map_of result (r_id r) = None
                     then result @ [(r_id r, new_book r)] else result)
      in AList.map_entry (r_id r) (add_format r) result')"

definition get_metadata_from_db :: "row list \<Rightarrow> string \<Rightarrow> catalog" where
  "get_metadata_from_db db tag = foldl add_row [] (fetchall db tag)"


subsection \<open>\<^verbatim>\<open>_load_metadata_cache\<close> and \<^verbatim>\<open>_save_metadata_cache\<close>\<close>

text \<open>
  \<^verbatim>\<open>open(file, 'r')\<close> followed by \<^verbatim>\<open>json.load\<close>: the exception raised, or the
  cache read.
\<close>

definition json_load_file :: "string \<Rightarrow> string \<Rightarrow> world \<Rightarrow> error + cache" where
  "json_load_file out s w =
     (case locate out s of
        None \<Rightarrow> Inl FileNotFoundError
      | Some p \<Rightarrow>
          (case read_at w p of
             Inl e \<Rightarrow> Inl e
           | Inr (Binary b) \<Rightarrow> Inl UnicodeDecodeError
           | Inr Text_not_json \<Rightarrow> Inl JSONDecodeError
           | Inr (Cache_json c) \<Rightarrow> Inr c))"

text \<open>Only \<^verbatim>\<open>json.JSONDecodeError\<close> is caught.\<close>

definition load_metadata_cache :: "manager \<Rightarrow> world \<Rightarrow> (error + cache) \<times> world" where
  "load_metadata_cache M w =
     (if os_path_exists (output_path M) w (metadata_cache_file M)
      then case json_load_file (output_path M) (metadata_cache_file M) w of
             Inr c \<Rightarrow> (Inr c, w)
           | Inl JSONDecodeError \<Rightarrow> (Inr [], logging Corrupted_cache w)
           | Inl e \<Rightarrow> (Inl e, w)
      else (Inr [], w))"

definition save_metadata_cache :: "manager \<Rightarrow> cache \<Rightarrow> world \<Rightarrow> error option \<times> world" where
  "save_metadata_cache M c w =
     (case os_makedirs (output_path M) (dirname (metadata_cache_file M)) w of
        Inl e \<Rightarrow> (Some e, w)
      | Inr w1 \<Rightarrow>
          (case locate (output_path M) (metadata_cache_file M) of
             None \<Rightarrow> (Some FileNotFoundError, w1)
           | Some p \<Rightarrow>
               (case write_at p (Cache_json c) w1 of
                  Inl e \<Rightarrow> (Some e, w1)
                | Inr w2 \<Rightarrow> (None, w2))))"

subsection \<open>\<^verbatim>\<open>_get_target_path\<close>\<close>

text \<open>The path is computed and the target folder is created on the way.\<close>

definition get_target_path ::
  "manager \<Rightarrow> book_data \<Rightarrow> string \<Rightarrow> world \<Rightarrow> (error + string) \<times> world" where
  "get_target_path M b format_type w =
     (case os_makedirs (output_path M) (target_folder (output_path M) b) w of
        Inl e \<Rightarrow> (Inl e, w)
      | Inr w' \<Rightarrow> (Inr (target_path (output_path M) b format_type), w'))"

subsection \<open>\<^verbatim>\<open>_process_file\<close>\<close>

text \<open>The body of the \<^verbatim>\<open>try\<close> block: the exception it raises, if any, and the store.\<close>

definition process_file_body ::
  "manager \<Rightarrow> string \<Rightarrow> string \<Rightarrow> world \<Rightarrow> error option \<times> world" where
  "process_file_body M source_file target_file w =
     (case (if os_path_exists (output_path M) w target_file
            then os_remove (output_path M) target_file w else Inr w) of
        Inl e \<Rightarrow> (Some e, w)
      | Inr w1 \<Rightarrow>
          (case library_method M of
             None \<Rightarrow> (Some NameError, w1)
           | Some m \<Rightarrow>
               if m = ''link'' then
                 (case os_symlink (output_path M) source_file target_file w1 of
                    Inl e \<Rightarrow> (Some e, w1)
                  | Inr w2 \<Rightarrow>
                      (None, logging (Symlink_created (basename target_file) source_file) w2))
               else if m = ''copy'' then
                 (case shutil_copy (output_path M) source_file target_file w1 of
                    Inl e \<Rightarrow> (Some e, w1)
                  | Inr w2 \<Rightarrow>
                      (None, logging (File_copied (basename target_file) source_file) w2))
               else (None, logging Invalid_method w1)))"

text \<open>\<^verbatim>\<open>except Exception as e\<close>: every exception of the body is logged.\<close>

type_synonym work = "string \<times> string \<times> int \<times> book_data \<times> string"

definition process_file :: "manager \<Rightarrow> work \<Rightarrow> world \<Rightarrow> error option \<times> world" where
  "process_file M item w =
     (case item of (source_file, target_file, book_id, b, format_type) \<Rightarrow>
        (case process_file_body M source_file target_file w of
           (Some e, w') \<Rightarrow> (None, logging (Error_creating (basename source_file) e) w')
         | (None, w') \<Rightarrow> (None, w')))"


subsection \<open>\<^verbatim>\<open>sync_tag\<close>\<close>

text \<open>Equality of the two \<^verbatim>\<open>metadata\<close> dictionaries, key by key.\<close>

definition metadata_eq :: "metadata \<Rightarrow> metadata \<Rightarrow> bool" where
  "metadata_eq a b =
     (py_eq (author_sort a) (author_sort b) \<and> py_eq (timestamp a) (timestamp b)
      \<and> py_eq (pubdate a) (pubdate b))"

definition source_path :: "manager \<Rightarrow> book_data \<Rightarrow> string \<Rightarrow> format_data \<Rightarrow> string" where
  "source_path M b format_type fd =
     path_join (path_join (library_path M) (path b)) (name fd @ ''.'' @ format_type)"

definition needs_update ::
  "manager \<Rightarrow> cache \<Rightarrow> world \<Rightarrow> int \<Rightarrow> book_data \<Rightarrow> string \<Rightarrow> format_data \<Rightarrow> string \<Rightarrow> bool" where
  "needs_update M cached w book_id b format_type fd target_file =
     (case map_of cached (str_int book_id) of
        None \<Rightarrow> True
      | Some cached_book \<Rightarrow>
          \<not> (case map_of (formats cached_book) format_type of
               None \<Rightarrow> False
             | Some cfd \<Rightarrow>
                 py_eq (last_modified cfd) (last_modified fd)
                 \<and> metadata_eq (metadata cached_book) (metadata b)
                 \<and> os_path_exists (output_path M) w target_file))"

text \<open>The (book, format) pairs in the order in which the nested loops visit them.\<close>

type_synonym pair = "int \<times> book_data \<times> string \<times> format_data"

definition pairs_of :: "catalog \<Rightarrow> pair list" where
  "pairs_of current =
     concat (map (\<lambda>(book_id, b). map (\<lambda>(f, fd). (book_id, b, f, fd)) (formats b)) current)"

text \<open>The first loop: an exception of \<^verbatim>\<open>_get_target_path\<close> ends the pass.\<close>

fun find_updates ::
  "manager \<Rightarrow> cache \<Rightarrow> pair list \<Rightarrow> work list \<Rightarrow> world \<Rightarrow> (error + work list) \<times> world" where
  "find_updates M cached [] to_process w = (Inr to_process, w)"
| "find_updates M cached ((book_id, b, format_type, fd) # ps) to_process w =
     (case get_target_path M b format_type w of
        (Inl e, w') \<Rightarrow> (Inl e, w')
      | (Inr target_file, w') \<Rightarrow>
          find_updates M cached ps
            (if needs_update M cached w' book_id b format_type fd target_file
             then to_process @ [(source_path M b format_type fd, target_file, book_id, b,
                                 format_type)]
             else to_process) w')"

text \<open>The set comprehension \<^verbatim>\<open>current_files\<close>.\<close>

fun collect_current_files ::
  "manager \<Rightarrow> pair list \<Rightarrow> string list \<Rightarrow> world \<Rightarrow> (error + string list) \<times> world" where
  "collect_current_files M [] acc w = (Inr acc, w)"
| "collect_current_files M ((book_id, b, format_type, fd) # ps) acc w =
     (case get_target_path M b format_type w of
        (Inl e, w') \<Rightarrow> (Inl e, w')
      | (Inr target_file, w') \<Rightarrow> collect_current_files M ps (acc @ [target_file]) w')"

definition recognized :: "string \<Rightarrow> bool" where
  "recognized file =
     (endswith (lower file) ''.cbr'' \<or> endswith (lower file) ''.cbz''
      \<or> endswith (lower file) ''.pdf'' \<or> endswith (lower file) ''.zip'')"

definition existing_files :: "manager \<Rightarrow> world \<Rightarrow> string list" where
  "existing_files M w =
     concat (map (\<lambda>(here, dirs, files). map (path_join here) (filter recognized files))
                 (os_walk (output_path M) (tree w)))"

text \<open>
  Everything up to the executor: the start message, the catalog, the cache, and the
  two collections \<^verbatim>\<open>to_process\<close> and \<^verbatim>\<open>to_remove\<close> (a set, here without repetition).
\<close>

definition reconcile ::
  "manager \<Rightarrow> row list \<Rightarrow> string \<Rightarrow> world \<Rightarrow> (error + work list \<times> string list) \<times> world" where
  "reconcile M db tag w0 =
     (let w1 = logging (Starting_sync tag) w0;
          current = get_metadata_from_db db tag
      in case load_metadata_cache M w1 of
           (Inl e, w2) \<Rightarrow> (Inl e, w2)
         | (Inr cached, w2) \<Rightarrow>
             (case find_updates M cached (pairs_of current) [] w2 of
                (Inl e, w3) \<Rightarrow> (Inl e, w3)
              | (Inr to_process, w3) \<Rightarrow>
                  (case collect_current_files M (pairs_of current) [] w3 of
                     (Inl e, w4) \<Rightarrow> (Inl e, w4)
                   | (Inr current_files, w4) \<Rightarrow>
                       (Inr (to_process,
                             filter (\<lambda>f. f \<notin> set current_files)
                                    (remdups (existing_files M w4))), w4))))"

text \<open>
  The executor, one task after the other in the order of submission: every task
  submitted runs, and the first exception among the results is the one raised when the
  results are collected.
\<close>

fun run_all ::
  "('a \<Rightarrow> world \<Rightarrow> error option \<times> world) \<Rightarrow> 'a list \<Rightarrow> world \<Rightarrow> error option \<times> world" where
  "run_all task [] w = (None, w)"
| "run_all task (x # xs) w =
     (case task x w of
        (r, w') \<Rightarrow>
          (case run_all task xs w' of
             (rs, w'') \<Rightarrow> ((case r of Some e \<Rightarrow> Some e | None \<Rightarrow> rs), w'')))"

definition remove_task :: "manager \<Rightarrow> string \<Rightarrow> world \<Rightarrow> error option \<times> world" where
  "remove_task M file_path w =
     (case os_remove (output_path M) file_path w of
        Inl e \<Rightarrow> (Some e, logging (Removing (basename file_path)) w)
      | Inr w' \<Rightarrow> (None, logging (Removing (basename file_path)) w'))"

text \<open>The last loop: empty directories are removed, from the bottom up.\<close>

fun sweep_names :: "manager \<Rightarrow> string \<Rightarrow> string list \<Rightarrow> world \<Rightarrow> error option \<times> world" where
  "sweep_names M here [] w = (None, w)"
| "sweep_names M here (nm # names) w =
     (let dir_path = path_join here nm
      in case os_listdir (output_path M) dir_path w of
           Inl e \<Rightarrow> (Some e, w)
         | Inr entries \<Rightarrow>
             if entries = [] \<and> \<not> endswith dir_path ''.git'' then
               (case os_rmdir (output_path M) dir_path w of
                  Inl e \<Rightarrow> (Some e, w)
                | Inr w' \<Rightarrow> sweep_names M here names w')
             else sweep_names M here names w)"

fun sweep :: "manager \<Rightarrow> (string \<times> string list) list \<Rightarrow> world \<Rightarrow> error option \<times> world" where
  "sweep M [] w = (None, w)"
| "sweep M ((here, names) # rest) w =
     (case sweep_names M here names w of
        (Some e, w') \<Rightarrow> (Some e, w')
      | (None, w') \<Rightarrow> sweep M rest w')"

text \<open>
  The part of \<^verbatim>\<open>sync_tag\<close> after the two collections are known: the executor, the
  cache, the sweep and the last message. The result names the step that raised.
\<close>

datatype step = Reconcile | Materialize | Remove | Save_cache | Sweep

definition execute ::
  "manager \<Rightarrow> row list \<Rightarrow> string \<Rightarrow> work list \<Rightarrow> string list \<Rightarrow> world
     \<Rightarrow> (step \<times> error) option \<times> world" where
  "execute M db tag to_process to_remove w =
     (case run_all (process_file M) to_process w of
        (Some e, w1) \<Rightarrow> (Some (Materialize, e), w1)
      | (None, w1) \<Rightarrow>
          (case run_all (remove_task M) to_remove w1 of
             (Some e, w2) \<Rightarrow> (Some (Remove, e), w2)
           | (None, w2) \<Rightarrow>
               (case save_metadata_cache M
                       (map (\<lambda>(k, v). (str_int k, v)) (get_metadata_from_db db tag)) w2 of
                  (Some e, w3) \<Rightarrow> (Some (Save_cache, e), w3)
                | (None, w3) \<Rightarrow>
                    (case sweep M (os_walk_bottom_up (output_path M) (tree w3)) w3 of
                       (Some e, w4) \<Rightarrow> (Some (Sweep, e), w4)
                     | (None, w4) \<Rightarrow> (None, logging (Sync_complete tag) w4)))))"

definition sync_tag ::
  "manager \<Rightarrow> row list \<Rightarrow> string \<Rightarrow> world \<Rightarrow> (step \<times> error) option \<times> world" where
  "sync_tag M db tag w =
     (case reconcile M db tag w of
        (Inl e, w') \<Rightarrow> (Some (Reconcile, e), w')
      | (Inr (to_process, to_remove), w') \<Rightarrow> execute M db tag to_process to_remove w')"


subsection \<open>The files below the output root\<close>

text \<open>
  Stated apart from the program: a file is an entry that is no directory, and the media
  files below the output root are the paths of the files that can be reached and whose
  name ends, in any case of the letters, in one of the four extensions.
\<close>

definition is_file :: "node \<Rightarrow> bool" where
  "is_file k = (case k of Dir wr \<Rightarrow> False | _ \<Rightarrow> True)"

definition media_files :: "string \<Rightarrow> tree \<Rightarrow> string set" where
  "media_files out t =
     {path_of out p | p. p \<noteq> [] \<and> (\<exists>k. node_at t p = Some k \<and> is_file k)
                          \<and> recognized (last p)}"

definition folder_pos :: "book_data \<Rightarrow> pos" where
  "folder_pos b =
     (if truthy_str (series b)
      then (if clean (the (series b)) = [] then [] else [clean (the (series b))])
      else [''No Series''])"

definition target_pos :: "book_data \<Rightarrow> string \<Rightarrow> pos" where
  "target_pos b f = folder_pos b @ [target_title b @ ''.'' @ f]"

definition fmt_ok :: "book_data \<Rightarrow> bool" where
  "fmt_ok b = (distinct (map fst (formats b)) \<and> fst ` set (formats b) \<subseteq> {''cbr'', ''cbz''})"

definition catalog_ok :: "catalog \<Rightarrow> bool" where
  "catalog_ok c = (distinct (map fst c) \<and> (\<forall>(k, b) \<in> set c. fmt_ok b))"

definition dotless :: "pos \<Rightarrow> bool" where
  "dotless q = list_all (\<lambda>n. CHR ''.'' \<notin> set n) q"

definition dirs_added :: "world \<Rightarrow> world \<Rightarrow> bool" where
  "dirs_added w w' =
     (lib w' = lib w
      \<and> (\<forall>q. node_at (tree w') q = node_at (tree w) q
             \<or> (node_at (tree w) q = None \<and> node_at (tree w') q = Some (Dir True)
                 \<and> dotless q)))"

definition work_of :: "manager \<Rightarrow> pair \<Rightarrow> work" where
  "work_of M pr =
     (case pr of (book_id, b, format_type, fd) \<Rightarrow>
        (source_path M b format_type fd, target_path (output_path M) b format_type,
         book_id, b, format_type))"

definition needed :: "manager \<Rightarrow> cache \<Rightarrow> world \<Rightarrow> pair \<Rightarrow> bool" where
  "needed M cached w pr =
     (case pr of (book_id, b, format_type, fd) \<Rightarrow>
        needs_update M cached w book_id b format_type fd
          (target_path (output_path M) b format_type))"

definition row_batman :: row where
  "row_batman =
     \<lparr>r_id = 1, r_title = ''Batman'', r_path = ''DC/Batman (1)'',
      r_series_name = Some ''Detective Comics'', r_series_index = Some 3,
      r_format = ''CBZ'', r_name = ''Batman - DC'', r_last_modified = TextV ''2024-05-01'',
      r_author_sort = TextV ''Kane, Bob'', r_timestamp = TextV ''2024-04-30'',
      r_pubdate = TextV ''1939-05-01'', r_size = IntV 1000, r_tag = ''Comics''\<rparr>"

definition row_annual :: row where
  "row_annual =
     \<lparr>r_id = 2, r_title = ''Annual'', r_path = ''DC/Annual (2)'',
      r_series_name = None, r_series_index = Some 1,
      r_format = ''cbr'', r_name = ''Annual - DC'', r_last_modified = TextV ''2024-06-01'',
      r_author_sort = Null, r_timestamp = TextV ''2024-05-30'',
      r_pubdate = TextV ''1960-01-01'', r_size = IntV 2000, r_tag = ''Comics''\<rparr>"

definition book_batman :: book_data where
  "book_batman =
     \<lparr>title = ''Batman'', path = ''DC/Batman (1)'', series = Some ''Detective Comics'',
      series_index = Some 3,
      formats = [(''cbz'', \<lparr>name = ''Batman - DC'', last_modified = TextV ''2024-05-01'',
                            size = IntV 1000\<rparr>)],
      metadata = \<lparr>author_sort = TextV ''Kane, Bob'', timestamp = TextV ''2024-04-30'',
                  pubdate = TextV ''1939-05-01''\<rparr>\<rparr>"

definition book_annual :: book_data where
  "book_annual =
     \<lparr>title = ''Annual'', path = ''DC/Annual (2)'', series = None, series_index = Some 1,
      formats = [(''cbr'', \<lparr>name = ''Annual - DC'', last_modified = TextV ''2024-06-01'',
                            size = IntV 2000\<rparr>)],
      metadata = \<lparr>author_sort = Null, timestamp = TextV ''2024-05-30'',
                  pubdate = TextV ''1960-01-01''\<rparr>\<rparr>"

definition synced_world :: world where
  "synced_world =
     \<lparr>tree = [([], Dir True),
              ([''sync_log.txt''], File Text_not_json),
              ([''Detective Comics''], Dir True),
              ([''Detective Comics'', ''3.0 - Batman.cbz''], File (Binary 1)),
              ([''.metadata_cache.json''], File (Cache_json [(''1'', book_batman)]))],
      lib = [''/lib/DC/Batman (1)/Batman - DC.cbz'' \<mapsto> Binary 1],
      log = []\<rparr>"

text \<open>
  A library that holds the file of Batman but not the file of Annual, and an output
  tree in which Batman has been materialized and cached.
\<close>

definition garbled_world :: world where
  "garbled_world =
     \<lparr>tree = [([], Dir True), ([''.metadata_cache.json''], File (Binary 0))],
      lib = [''/lib/DC/Batman (1)/Batman - DC.cbz'' \<mapsto> Binary 1], log = []\<rparr>"

definition truncated_world :: world where
  "truncated_world =
     \<lparr>tree = [([], Dir True), ([''.metadata_cache.json''], File Text_not_json)],
      lib = [''/lib/DC/Batman (1)/Batman - DC.cbz'' \<mapsto> Binary 1], log = []\<rparr>"

text \<open>
  An output tree whose cache file holds bytes that are no text, and one whose cache
  file holds text that is no JSON document.
\<close>

definition lib_kept :: "world \<Rightarrow> world \<Rightarrow> bool" where
  "lib_kept w w' = (\<forall>l x. lib w l = Some x \<longrightarrow> (\<exists>y. lib w' l = Some y))"

definition same_except :: "pos \<Rightarrow> world \<Rightarrow> world \<Rightarrow> bool" where
  "same_except p w w' =
     (lib_kept w w' \<and> (\<forall>q. q \<noteq> p \<longrightarrow> node_at (tree w') q = node_at (tree w) q))"

definition changed_only :: "pos set \<Rightarrow> world \<Rightarrow> world \<Rightarrow> bool" where
  "changed_only S w w' =
     (\<forall>q k. q \<notin> S \<longrightarrow> is_file k \<longrightarrow>
            (node_at (tree w') q = Some k) = (node_at (tree w) q = Some k))"

definition deleted_only :: "pos set \<Rightarrow> world \<Rightarrow> world \<Rightarrow> bool" where
  "deleted_only S w w' =
     (lib w' = lib w
      \<and> (\<forall>q. node_at (tree w') q = node_at (tree w) q
             \<or> (node_at (tree w') q = None \<and> q \<in> S)))"

definition dirs_removed :: "world \<Rightarrow> world \<Rightarrow> bool" where
  "dirs_removed w w' =
     (lib w' = lib w
      \<and> (\<forall>q. node_at (tree w') q = node_at (tree w) q
             \<or> (node_at (tree w') q = None \<and> (\<exists>wr. node_at (tree w) q = Some (Dir wr)))))"

definition located :: "string \<Rightarrow> string list \<Rightarrow> pos set" where
  "located out xs = {p. \<exists>s \<in> set xs. locate out s = Some p}"

definition file_at :: "world \<Rightarrow> pos \<Rightarrow> bool" where
  "file_at w p = (\<exists>c. node_at (tree w) p = Some (File c))"

section \<open>Scenarios\<close>

definition no_metadata :: metadata where
  "no_metadata = \<lparr>author_sort = Null, timestamp = Null, pubdate = Null\<rparr>"

definition batman :: book_data where
  "batman =
     \<lparr>title = ''Batman'', path = ''DC/Batman (1)'', series = Some ''Detective Comics'',
      series_index = Some 3, formats = [], metadata = no_metadata\<rparr>"

definition batman_zero :: book_data where
  "batman_zero = batman\<lparr>series_index := Some 0\<rparr>"

definition annual :: book_data where
  "annual =
     \<lparr>title = ''Annual'', path = ''DC/Annual (2)'', series = None,
      series_index = None, formats = [], metadata = no_metadata\<rparr>"

definition copy_manager :: manager where
  "copy_manager =
     \<lparr>library_path = ''/lib'', output_path = ''/out'', library_method = Some ''copy''\<rparr>"

text \<open>
  An output tree with two orphans, one of them in a directory that is not writable, and
  an empty directory.
\<close>

definition locked_world :: world where
  "locked_world =
     \<lparr>tree = [([], Dir True),
              ([''Old''], Dir False), ([''Old'', ''gone.cbz''], File (Binary 7)),
              ([''New''], Dir True), ([''New'', ''stale.cbr''], File (Binary 8)),
              ([''Empty''], Dir True)],
      lib = Map.empty, log = []\<rparr>"

section \<open>Path derivation\<close>

text \<open>
  C2, at the scenario of the specification: the item Batman of the series
  Detective Comics with index 3.0 and format cbz gets the file name
  \<open>3.0 - Batman.cbz\<close>: the field width 2 of the format counts every character of
  the number, so nothing is padded and the index has one integer digit, not two.
  The item Annual without a series gets \<open>No Series/Annual.cbr\<close>.
\<close>

theorem target_path_scenarios:
  "target_path ''/out'' batman ''cbz'' = ''/out/Detective Comics/3.0 - Batman.cbz''
   \<and> target_path ''/out'' batman ''cbz'' \<noteq> ''/out/Detective Comics/03.0 - Batman.cbz''
   \<and> target_path ''/out'' annual ''cbr'' = ''/out/No Series/Annual.cbr''"
  by code_simp

text \<open>
  C8: with a series and the series index 0, no index is put before the title: the file
  is the cleaned title with the format, in the folder of the series, and it is the
  path of the same item without a series index.
\<close>

theorem zero_index_no_prefix:
  assumes "truthy_str (series b)" and "series_index b = Some 0"
  shows "target_path out b f =
           path_join (path_join out (clean (the (series b)))) (clean (title b) @ ''.'' @ f)
         \<and> target_path out b f = target_path out (b\<lparr>series_index := None\<rparr>) f"
  using assms
  by (simp add: target_path_def target_folder_def target_title_def truthy_num_def)

theorem zero_index_no_prefix_witness:
  "truthy_str (series batman_zero) \<and> series_index batman_zero = Some 0
   \<and> target_path ''/out'' batman_zero ''cbz''
       = path_join (path_join ''/out'' (clean (the (series batman_zero))))
           (clean (title batman_zero) @ ''.'' @ ''cbz'')
   \<and> target_path ''/out'' batman_zero ''cbz''
       = target_path ''/out'' (batman_zero\<lparr>series_index := None\<rparr>) ''cbz''"
proof -
  have h1: "truthy_str (series batman_zero)"
    by (simp add: batman_zero_def batman_def truthy_str_def)
  have h2: "series_index batman_zero = Some 0"
    by (simp add: batman_zero_def)
  show ?thesis
    using zero_index_no_prefix [OF h1 h2, of "''/out''" "''cbz''"] h1 h2 by blast
qed

section \<open>The materialization worker\<close>

text \<open>
  C9: \<^verbatim>\<open>_process_file\<close> raises nothing: whatever the removal of an old target, the
  link or the copy raises is caught inside, for every input and every store.
\<close>

theorem process_file_never_raises: "fst (process_file M item w) = None"
  by (simp add: process_file_def split: prod.splits option.splits)

section \<open>Failures in the executor\<close>

text \<open>
  C5, at a tree where one orphan lies in a directory that is not writable: the removal
  of the other orphan is done, but the exception of \<^verbatim>\<open>os.remove\<close> leaves
  \<^verbatim>\<open>sync_tag\<close> at the removal step, so the cache is not written and the empty
  directory is not swept.
\<close>

theorem removal_failure_ends_pass:
  "fst (sync_tag copy_manager [] ''Comics'' locked_world) = Some (Remove, PermissionError)
   \<and> tree (snd (sync_tag copy_manager [] ''Comics'' locked_world))
       = [([], Dir True), ([''Old''], Dir False), ([''Old'', ''gone.cbz''], File (Binary 7)),
          ([''New''], Dir True), ([''Empty''], Dir True)]"
  by code_simp

section \<open>Paths and positions\<close>

lemma fields_not_Nil [simp]: "path_fields s \<noteq> []"
  by (induction s) (auto split: list.splits)

lemma fields_append_sep: "path_fields (a @ CHR ''/'' # b) = path_fields a @ path_fields b"
  by (induction a) (auto split: list.splits)

lemma fields_no_sep: "CHR ''/'' \<notin> set n \<Longrightarrow> path_fields n = [n]"
  by (induction n) auto

lemma fields_elem_no_sep: "f \<in> set (path_fields s) \<Longrightarrow> CHR ''/'' \<notin> set f"
  by (induction s arbitrary: f) (auto split: if_splits list.splits)

lemma comps_valid: "f \<in> set (comps s) \<Longrightarrow> valid_name f"
  by (auto simp: comps_def valid_name_def dest: fields_elem_no_sep)

lemma comps_append_sep: "comps (a @ CHR ''/'' # b) = comps a @ comps b"
  by (simp add: comps_def fields_append_sep)

lemma comps_name: "CHR ''/'' \<notin> set n \<Longrightarrow> comps n = (if n = [] then [] else [n])"
  by (simp add: comps_def fields_no_sep)

lemma comps_Nil [simp]: "comps [] = []"
  by (simp add: comps_def)

lemma comps_path_join:
  assumes "CHR ''/'' \<notin> set n"
  shows "comps (path_join a n) = comps a @ (if n = [] then [] else [n])"
proof (cases "a = [] \<or> last a = CHR ''/''")
  case True
  show ?thesis
  proof (cases "a = []")
    case True
    with assms show ?thesis
      by (cases n) (auto simp: path_join_def comps_name)
  next
    case False
    with True obtain a' where a: "a = a' @ ''/''"
      by (metis append_butlast_last_id)
    have "path_join a n = a' @ CHR ''/'' # n"
      using assms a by (cases n) (auto simp: path_join_def)
    moreover have "comps a = comps a'"
      using comps_append_sep [of a' "[]"] a by simp
    ultimately show ?thesis
      using assms by (simp add: comps_append_sep comps_name)
  qed
next
  case False
  then have "path_join a n = a @ CHR ''/'' # n"
    using assms by (cases n) (auto simp: path_join_def)
  then show ?thesis
    using assms by (simp add: comps_append_sep comps_name)
qed

lemma is_abs_path_join:
  "CHR ''/'' \<notin> set n \<Longrightarrow> is_abs (path_join a n) = is_abs a"
  by (cases n; cases a) (auto simp: path_join_def is_abs_def)

lemma path_of_snoc: "path_of out (p @ [n]) = path_join (path_of out p) n"
  by (simp add: path_of_def)

lemma comps_path_of:
  "list_all valid_name p \<Longrightarrow> comps (path_of out p) = comps out @ p \<and> is_abs (path_of out p) = is_abs out"
proof (induction p rule: rev_induct)
  case Nil
  show ?case by (simp add: path_of_def)
next
  case (snoc n p)
  then show ?case
    by (simp add: path_of_snoc comps_path_join is_abs_path_join valid_name_def)
qed

lemma locate_path_of: "list_all valid_name p \<Longrightarrow> locate out (path_of out p) = Some p"
  by (simp add: locate_def comps_path_of Let_def)

lemma locate_valid: "locate out s = Some p \<Longrightarrow> list_all valid_name p"
  by (auto simp: locate_def Let_def list_all_iff split: if_splits dest!: in_set_dropD comps_valid)

lemma locate_path_join:
  "CHR ''/'' \<notin> set n \<Longrightarrow> locate out (path_join out n) = Some (if n = [] then [] else [n])"
  by (simp add: locate_def comps_path_join is_abs_path_join Let_def)

section \<open>The tree after an operation\<close>

lemma set_butlast_distinct:
  "distinct xs \<Longrightarrow> xs \<noteq> [] \<Longrightarrow> set (butlast xs) = set xs - {last xs}"
proof -
  assume d: "distinct xs" and n: "xs \<noteq> []"
  then obtain ys y where xs: "xs = ys @ [y]"
    by (metis append_butlast_last_id)
  with d have "y \<notin> set ys" by simp
  with xs show ?thesis by auto
qed

lemma set_butlast_prefixes: "set (butlast (prefixes p)) = {q. strict_prefix q p}"
proof -
  have "set (butlast (prefixes p)) = set (prefixes p) - {last (prefixes p)}"
    by (rule set_butlast_distinct [OF distinct_prefixes prefixes_not_Nil])
  then have "set (butlast (prefixes p)) = {q. prefix q p} - {p}"
    by (simp add: set_eq_iff)
  then show ?thesis
    unfolding strict_prefix_def by blast
qed

lemma reachable_iff:
  "reachable t p \<longleftrightarrow> list_all valid_name p \<and> (\<forall>q. strict_prefix q p \<longrightarrow> is_dir_at t q)"
  by (simp add: reachable_def set_butlast_prefixes)

lemma reachable_Nil [simp]: "reachable t []"
  by (simp add: reachable_iff)

lemma reachable_prefix: "reachable t p \<Longrightarrow> prefix q p \<Longrightarrow> reachable t q"
proof -
  assume r: "reachable t p" and pq: "prefix q p"
  have "list_all valid_name q"
    using r pq by (auto simp: reachable_iff list_all_iff prefix_def)
  moreover have "is_dir_at t x" if "strict_prefix x q" for x
  proof -
    from that pq have "strict_prefix x p" by (rule prefix_order.less_le_trans)
    with r show ?thesis by (simp add: reachable_iff)
  qed
  ultimately show ?thesis by (simp add: reachable_iff)
qed

lemma strict_prefix_snoc_iff: "strict_prefix q (d @ [n]) \<longleftrightarrow> prefix q d"
proof
  assume "strict_prefix q (d @ [n])"
  then show "prefix q d" by (auto simp: strict_prefix_def)
next
  assume p: "prefix q d"
  then have "length q \<le> length d" by (rule prefix_length_le)
  then have "q \<noteq> d @ [n]" by auto
  with p show "strict_prefix q (d @ [n])" by (simp add: strict_prefix_def)
qed

lemma reachable_snoc:
  "reachable t (d @ [n]) \<longleftrightarrow> reachable t d \<and> is_dir_at t d \<and> valid_name n"
proof -
  have "(\<forall>q. prefix q d \<longrightarrow> is_dir_at t q)
        \<longleftrightarrow> (\<forall>q. strict_prefix q d \<longrightarrow> is_dir_at t q) \<and> is_dir_at t d"
    by (auto simp: prefix_order.le_less)
  then show ?thesis
    by (simp add: reachable_iff strict_prefix_snoc_iff) blast
qed

lemma reachable_cong:
  "(\<And>q. strict_prefix q p \<Longrightarrow> is_dir_at t' q = is_dir_at t q) \<Longrightarrow> reachable t' p = reachable t p"
  by (simp add: reachable_iff)

lemma node_at_Some_reachable: "node_at t p = Some n \<Longrightarrow> reachable t p \<and> map_of t p = Some n"
  by (simp add: node_at_def split: if_splits)

lemma is_dir_at_node:
  "reachable t p \<Longrightarrow> is_dir_at t p \<longleftrightarrow> (\<exists>wr. node_at t p = Some (Dir wr))"
  by (auto simp: is_dir_at_def node_at_def split: option.splits node.splits)

lemma below_not_dir:
  "\<not> is_dir_at t p \<Longrightarrow> strict_prefix p q \<Longrightarrow> node_at t q = None"
  by (auto simp: node_at_def reachable_iff)

text \<open>A change of the table at one position, below which nothing can be reached.\<close>

lemma node_at_change:
  assumes m: "\<And>q. q \<noteq> p \<Longrightarrow> \<not> strict_prefix p q \<Longrightarrow> map_of t' q = map_of t q"
    and p: "map_of t' p = v"
    and r: "reachable t p"
    and below: "\<And>q. strict_prefix p q \<Longrightarrow> node_at t q = None"
    and below': "\<And>q. strict_prefix p q \<Longrightarrow> node_at t' q = None"
  shows "node_at t' q = (if q = p then v else node_at t q)"
proof -
  have d: "is_dir_at t' x = is_dir_at t x" if "x \<noteq> p" "\<not> strict_prefix p x" for x
    using m [OF that] by (simp add: is_dir_at_def)
  have pre: "reachable t' x = reachable t x" if "\<not> strict_prefix p x" for x
  proof (rule reachable_cong)
    fix y assume "strict_prefix y x"
    with that have "y \<noteq> p" "\<not> strict_prefix p y"
      using prefix_order.less_trans [of p y x] by blast+
    then show "is_dir_at t' y = is_dir_at t y" by (rule d)
  qed
  show ?thesis
  proof (cases "q = p")
    case True
    with pre [of p] r p show ?thesis by (simp add: node_at_def)
  next
    case False
    show ?thesis
    proof (cases "strict_prefix p q")
      case True
      with below below' False show ?thesis by simp
    next
      case np: False
      with False pre [of q] m [of q] show ?thesis by (simp add: node_at_def)
    qed
  qed
qed

lemma map_of_clear_below:
  "map_of (clear_below p t) q = (if strict_prefix p q then None else map_of t q)"
  by (induction t) (auto simp: clear_below_def)

lemma mkdir_at_node:
  assumes "mkdir_at t p = Inr t'"
  shows "node_at t' q = (if q = p then Some (Dir True) else node_at t q)"
proof -
  from assms have none: "node_at t p = None" and ce: "create_error t p = None"
    and t': "t' = AList.update p (Dir True) (clear_below p t)"
    by (auto simp: mkdir_at_def split: if_splits option.splits)
  have r: "reachable t p"
  proof (cases "p = []")
    case False
    with ce obtain wr where "node_at t (butlast p) = Some (Dir wr)" "valid_name (last p)"
      by (auto simp: create_error_def split: if_splits option.splits node.splits)
    then have "reachable t (butlast p @ [last p])"
      by (auto simp: reachable_snoc is_dir_at_def dest!: node_at_Some_reachable)
    with False show ?thesis by simp
  qed simp
  with none have mp: "map_of t p = None" by (simp add: node_at_def)
  then have nd: "\<not> is_dir_at t p" by (simp add: is_dir_at_def)
  show ?thesis
  proof (rule node_at_change)
    show "map_of t' x = map_of t x" if "x \<noteq> p" "\<not> strict_prefix p x" for x
      using that by (simp add: t' update_conv' map_of_clear_below)
    show "map_of t' p = Some (Dir True)" by (simp add: t' update_conv')
    show "reachable t p" by (rule r)
    show "node_at t x = None" if "strict_prefix p x" for x
      using nd that by (rule below_not_dir)
    show "node_at t' x = None" if "strict_prefix p x" for x
      using that by (auto simp: node_at_def t' update_conv' map_of_clear_below)
  qed
qed

lemma create_ok_reachable: "create_error t p = None \<Longrightarrow> reachable t p"
proof (cases "p = []")
  case False
  assume "create_error t p = None"
  with False obtain wr where "node_at t (butlast p) = Some (Dir wr)" "valid_name (last p)"
    by (auto simp: create_error_def split: if_splits option.splits node.splits)
  then have "reachable t (butlast p @ [last p])"
    by (auto simp: reachable_snoc is_dir_at_def dest!: node_at_Some_reachable)
  with False show ?thesis by simp
qed simp

lemma update_leaf_node:
  assumes r: "reachable t p" and nd: "\<not> is_dir_at t p" and leaf: "\<And>wr. n \<noteq> Dir wr"
  shows "node_at (AList.update p n t) q = (if q = p then Some n else node_at t q)"
proof (rule node_at_change)
  show "map_of (AList.update p n t) x = map_of t x" if "x \<noteq> p" for x
    using that by (simp add: update_conv')
  show "map_of (AList.update p n t) p = Some n" by (simp add: update_conv')
  show "reachable t p" by (rule r)
  show "node_at t x = None" if "strict_prefix p x" for x
    using nd that by (rule below_not_dir)
  have "\<not> is_dir_at (AList.update p n t) p"
    using leaf by (cases n) (auto simp: is_dir_at_def update_conv')
  then show "node_at (AList.update p n t) x = None" if "strict_prefix p x" for x
    using that by (rule below_not_dir)
qed

lemma delete_leaf_node:
  assumes r: "reachable t p" and nd: "\<not> is_dir_at t p"
  shows "node_at (AList.delete p t) q = (if q = p then None else node_at t q)"
proof (rule node_at_change)
  show "map_of (AList.delete p t) x = map_of t x" if "x \<noteq> p" for x
    using that by (simp add: delete_conv')
  show "map_of (AList.delete p t) p = None" by (simp add: delete_conv')
  show "reachable t p" by (rule r)
  show "node_at t x = None" if "strict_prefix p x" for x
    using nd that by (rule below_not_dir)
  have "\<not> is_dir_at (AList.delete p t) p"
    by (simp add: is_dir_at_def delete_conv')
  then show "node_at (AList.delete p t) x = None" if "strict_prefix p x" for x
    using that by (rule below_not_dir)
qed

lemma remove_at_node:
  assumes "remove_at t p = Inr t'"
  shows "node_at t' q = (if q = p then None else node_at t q)"
proof -
  from assms obtain n where n: "node_at t p = Some n" "\<And>wr. n \<noteq> Dir wr"
    and t': "t' = AList.delete p t"
    by (auto simp: remove_at_def split: option.splits node.splits if_splits)
  from n have "reachable t p"
    by (auto dest: node_at_Some_reachable)
  moreover from n have "\<not> is_dir_at t p"
    by (cases n) (auto simp: is_dir_at_def dest!: node_at_Some_reachable)
  ultimately show ?thesis unfolding t' by (rule delete_leaf_node)
qed

lemma remove_at_was_file:
  "remove_at t p = Inr t' \<Longrightarrow> \<exists>n. node_at t p = Some n \<and> (\<forall>wr. n \<noteq> Dir wr)"
  by (auto simp: remove_at_def split: option.splits node.splits if_splits)

lemma in_listdir:
  "map_of t (d @ [n]) = Some v \<Longrightarrow> valid_name n \<Longrightarrow> n \<in> set (listdir_at t d)"
proof -
  assume m: "map_of t (d @ [n]) = Some v" and v: "valid_name n"
  from m have "d @ [n] \<in> fst ` set t"
    by (metis map_of_SomeD fst_conv image_eqI)
  with v have "d @ [n] \<in> set (filter (\<lambda>k. k \<noteq> [] \<and> butlast k = d \<and> valid_name (last k))
                      (remdups (map fst t)))"
    by simp
  then have "last (d @ [n]) \<in> set (listdir_at t d)"
    unfolding listdir_at_def set_map by (rule imageI)
  then show ?thesis by simp
qed

lemma listdir_empty_below:
  assumes e: "listdir_at t p = []" and sp: "strict_prefix p x"
  shows "node_at t x = None"
proof (rule ccontr)
  assume "node_at t x \<noteq> None"
  then obtain n where n: "node_at t x = Some n" by blast
  then have rx: "reachable t x" and mx: "map_of t x = Some n"
    by (auto dest: node_at_Some_reachable)
  from sp obtain a rest where x: "x = p @ a # rest"
    by (rule strict_prefixE') 
  have pa: "prefix (p @ [a]) x" by (simp add: x)
  with rx have "reachable t (p @ [a])" by (rule reachable_prefix)
  then have va: "valid_name a" by (simp add: reachable_snoc)
  have "\<exists>v. map_of t (p @ [a]) = Some v"
  proof (cases "rest = []")
    case True
    with mx x show ?thesis by simp
  next
    case False
    then have "strict_prefix (p @ [a]) x"
      using x by (intro strict_prefixI' [where z = "hd rest" and zs = "tl rest"]) simp
    with rx have "is_dir_at t (p @ [a])" by (simp add: reachable_iff)
    then show ?thesis by (auto simp: is_dir_at_def split: option.splits)
  qed
  then obtain v where "map_of t (p @ [a]) = Some v" by blast
  then have "a \<in> set (listdir_at t p)" using va by (rule in_listdir)
  with e show False by simp
qed

lemma rmdir_at_node:
  assumes "rmdir_at t p = Inr t'"
  shows "node_at t' q = (if q = p then None else node_at t q)"
proof -
  from assms obtain wr where n: "node_at t p = Some (Dir wr)" and e: "listdir_at t p = []"
    and t': "t' = AList.delete p t"
    by (auto simp: rmdir_at_def split: option.splits node.splits if_splits)
  show ?thesis
  proof (rule node_at_change)
    show "map_of t' x = map_of t x" if "x \<noteq> p" for x
      using that by (simp add: t' delete_conv')
    show "map_of t' p = None" by (simp add: t' delete_conv')
    show "reachable t p" using n by (auto dest: node_at_Some_reachable)
    show "node_at t x = None" if "strict_prefix p x" for x
      using e that by (rule listdir_empty_below)
    have "\<not> is_dir_at t' p" by (simp add: is_dir_at_def t' delete_conv')
    then show "node_at t' x = None" if "strict_prefix p x" for x
      using that by (rule below_not_dir)
  qed
qed

lemma makedirs_levels_node:
  "makedirs_levels t qs = Inr t' \<Longrightarrow>
   node_at t' q = node_at t q
   \<or> (node_at t q = None \<and> node_at t' q = Some (Dir True) \<and> q \<in> set qs)"
proof (induction qs arbitrary: t)
  case Nil
  then show ?case by simp
next
  case (Cons q0 qs)
  show ?case
  proof (cases "is_dir_at t q0 \<and> reachable t q0")
    case True
    with Cons.prems have "makedirs_levels t qs = Inr t'" by simp
    from Cons.IH [OF this] show ?thesis by auto
  next
    case False
    with Cons.prems obtain t1 where m: "mkdir_at t q0 = Inr t1"
      and r: "makedirs_levels t1 qs = Inr t'"
      by (auto split: sum.splits)
    from m have none: "node_at t q0 = None"
      by (auto simp: mkdir_at_def split: if_splits)
    have n1: "node_at t1 q = (if q = q0 then Some (Dir True) else node_at t q)"
      using m by (rule mkdir_at_node)
    from Cons.IH [OF r] show ?thesis
    proof
      assume "node_at t' q = node_at t1 q"
      with n1 none show ?thesis by auto
    next
      assume "node_at t1 q = None \<and> node_at t' q = Some (Dir True) \<and> q \<in> set qs"
      with n1 show ?thesis by (auto split: if_splits)
    qed
  qed
qed

section \<open>What the walk finds\<close>

lemma is_dir_at_iff_node:
  "reachable t p \<Longrightarrow> is_dir_at t p \<longleftrightarrow> (\<exists>k. node_at t p = Some k \<and> \<not> is_file k)"
  by (auto simp: is_dir_at_def node_at_def is_file_def split: option.splits node.splits)

lemma in_listdir_iff:
  "n \<in> set (listdir_at t d) \<longleftrightarrow> valid_name n \<and> (\<exists>v. map_of t (d @ [n]) = Some v)"
proof
  assume "n \<in> set (listdir_at t d)"
  then obtain k where k: "k \<in> fst ` set t" "k \<noteq> []" "butlast k = d" "valid_name (last k)" "n = last k"
    unfolding listdir_at_def by auto
  then have "k = d @ [n]" by (metis append_butlast_last_id)
  moreover from k(1) obtain v where "map_of t k = Some v"
    by (metis (no_types) domD dom_map_of_conv_image_fst)
  ultimately show "valid_name n \<and> (\<exists>v. map_of t (d @ [n]) = Some v)"
    using k by auto
next
  assume "valid_name n \<and> (\<exists>v. map_of t (d @ [n]) = Some v)"
  then show "n \<in> set (listdir_at t d)" by (auto intro: in_listdir)
qed

lemma in_walk_dirs: "d \<in> set (walk_dirs t) \<longleftrightarrow> reachable t d \<and> is_dir_at t d"
proof -
  have "is_dir_at t d \<Longrightarrow> d \<in> fst ` set t"
    by (auto simp: is_dir_at_def split: option.splits)
       (metis domI dom_map_of_conv_image_fst)
  then show ?thesis by (auto simp: walk_dirs_def)
qed

lemma file_or_dir:
  "(\<exists>k. map_of t x = Some k \<and> is_file k) \<longleftrightarrow> (\<exists>v. map_of t x = Some v) \<and> \<not> is_dir_at t x"
proof (cases "map_of t x")
  case None
  then show ?thesis by simp
next
  case (Some k)
  then show ?thesis by (cases k) (simp_all add: is_dir_at_def is_file_def)
qed

lemma in_files_in:
  "reachable t d \<Longrightarrow> is_dir_at t d \<Longrightarrow>
   n \<in> set (files_in t d) \<longleftrightarrow> (\<exists>k. node_at t (d @ [n]) = Some k \<and> is_file k)"
proof -
  assume r: "reachable t d" and dd: "is_dir_at t d"
  have "n \<in> set (files_in t d) \<longleftrightarrow>
        valid_name n \<and> (\<exists>v. map_of t (d @ [n]) = Some v) \<and> \<not> is_dir_at t (d @ [n])"
    by (auto simp: files_in_def in_listdir_iff)
  also have "\<dots> \<longleftrightarrow> valid_name n \<and> (\<exists>k. map_of t (d @ [n]) = Some k \<and> is_file k)"
    by (simp add: file_or_dir)
  also have "\<dots> \<longleftrightarrow> (\<exists>k. node_at t (d @ [n]) = Some k \<and> is_file k)"
    using r dd by (auto simp: node_at_def reachable_snoc)
  finally show ?thesis .
qed

lemma existing_files_set:
  assumes "output_path M \<noteq> []"
  shows "set (existing_files M w) = media_files (output_path M) (tree w)"
proof (rule set_eqI, rule iffI)
  fix s
  assume "s \<in> set (existing_files M w)"
  then obtain d n where d: "d \<in> set (walk_dirs (tree w))" and n: "n \<in> set (files_in (tree w) d)"
    and rec: "recognized n" and s: "s = path_join (path_of (output_path M) d) n"
    using assms by (auto simp: existing_files_def os_walk_def)
  from d have "reachable (tree w) d" "is_dir_at (tree w) d" by (simp_all add: in_walk_dirs)
  with n have "\<exists>k. node_at (tree w) (d @ [n]) = Some k \<and> is_file k" by (simp add: in_files_in)
  with rec s show "s \<in> media_files (output_path M) (tree w)"
    unfolding media_files_def by (intro CollectI exI [of _ "d @ [n]"]) (simp add: path_of_snoc)
next
  fix s
  assume "s \<in> media_files (output_path M) (tree w)"
  then obtain p k where p: "p \<noteq> []" "node_at (tree w) p = Some k" "is_file k"
    "recognized (last p)" "s = path_of (output_path M) p"
    unfolding media_files_def by blast
  define d where "d = butlast p"
  define n where "n = last p"
  have pd: "p = d @ [n]" using p(1) by (simp add: d_def n_def)
  from p(2) have "reachable (tree w) (d @ [n])" by (auto simp: pd dest: node_at_Some_reachable)
  then have r: "reachable (tree w) d" "is_dir_at (tree w) d" by (simp_all add: reachable_snoc)
  then have "d \<in> set (walk_dirs (tree w))" by (simp add: in_walk_dirs)
  moreover have "n \<in> set (files_in (tree w) d)"
    using r p(2,3) by (auto simp: in_files_in pd)
  moreover have "s = path_join (path_of (output_path M) d) n"
    using p(5) by (simp add: pd path_of_snoc)
  ultimately show "s \<in> set (existing_files M w)"
    using assms p(4) unfolding existing_files_def os_walk_def n_def [symmetric]
    by (auto simp: n_def intro!: bexI [of _ d])
qed

section \<open>Where the target path lies\<close>

lemma set_strip: "set (strip s) \<subseteq> set s"
proof
  fix c
  assume "c \<in> set (strip s)"
  then have "c \<in> set (dropWhile isspace (rev (dropWhile isspace s)))"
    by (simp add: strip_def)
  then have "c \<in> set (rev (dropWhile isspace s))" by (rule set_dropWhileD)
  then have "c \<in> set (dropWhile isspace s)" by simp
  then show "c \<in> set s" by (rule set_dropWhileD)
qed

lemma clean_no_sep: "CHR ''/'' \<notin> set (clean s)"
proof -
  have "set (clean s) \<subseteq> {c. keep_char c}"
    unfolding clean_def using set_strip [of "filter keep_char s"] by auto
  moreover have "\<not> keep_char CHR ''/''"
    by (simp add: keep_char_def isalnum_def)
  ultimately show ?thesis by blast
qed

lemma digit_char_no_sep: "d < 10 \<Longrightarrow> digit_char d \<noteq> CHR ''/''"
proof -
  assume "d < 10"
  then have "digit_char d \<in> set ''0123456789''"
    unfolding digit_char_def by (intro nth_mem) simp
  then show ?thesis by auto
qed

lemma digits_no_sep: "CHR ''/'' \<notin> set (digits n)"
proof (induction n rule: digits.induct)
  case (1 n)
  show ?case
  proof (cases "n < 10")
    case True
    then show ?thesis
      using digit_char_no_sep [of n] by (subst digits.simps) auto
  next
    case False
    with 1 have "CHR ''/'' \<notin> set (digits (n div 10))" by simp
    moreover have "digit_char (n mod 10) \<noteq> CHR ''/''"
      by (rule digit_char_no_sep) simp
    ultimately show ?thesis
      using False by (subst digits.simps) auto
  qed
qed

lemma format_no_sep: "CHR ''/'' \<notin> set (format_02_1f x)"
  by (auto simp: format_02_1f_def zero_pad_def Let_def digits_no_sep)

lemma target_title_no_sep: "CHR ''/'' \<notin> set (target_title b)"
  by (auto simp: target_title_def clean_no_sep format_no_sep)

lemma target_name_valid:
  "CHR ''/'' \<notin> set f \<Longrightarrow> valid_name (target_title b @ ''.'' @ f)"
  by (simp add: valid_name_def target_title_no_sep)

lemma folder_pos_valid: "list_all valid_name (folder_pos b)"
  by (simp add: folder_pos_def valid_name_def clean_no_sep)

lemma target_pos_valid: "CHR ''/'' \<notin> set f \<Longrightarrow> list_all valid_name (target_pos b f)"
  using target_name_valid [of f b] by (simp add: target_pos_def folder_pos_valid)

lemma comps_target_folder:
  "comps (target_folder out b) = comps out @ folder_pos b
   \<and> is_abs (target_folder out b) = is_abs out"
  by (simp add: target_folder_def folder_pos_def comps_path_join is_abs_path_join clean_no_sep)

lemma locate_target_folder: "locate out (target_folder out b) = Some (folder_pos b)"
  by (simp add: locate_def comps_target_folder Let_def)

lemma locate_target_path:
  assumes "CHR ''/'' \<notin> set f"
  shows "locate out (target_path out b f) = Some (target_pos b f)"
proof -
  define nm where "nm = target_title b @ ''.'' @ f"
  have n: "CHR ''/'' \<notin> set nm" and ne: "nm \<noteq> []"
    using assms by (simp_all add: nm_def target_title_no_sep)
  have tp: "target_path out b f = path_join (target_folder out b) nm"
    and tq: "target_pos b f = folder_pos b @ [nm]"
    by (simp_all add: target_path_def target_pos_def nm_def)
  have "comps (target_path out b f) = comps out @ target_pos b f"
    unfolding tp tq using ne by (simp add: comps_path_join [OF n] comps_target_folder)
  moreover have "is_abs (target_path out b f) = is_abs out"
    unfolding tp by (simp add: is_abs_path_join [OF n] comps_target_folder)
  ultimately show ?thesis by (simp add: locate_def Let_def)
qed

lemma path_join_empty_mid:
  "n \<noteq> [] \<Longrightarrow> hd n \<noteq> CHR ''/'' \<Longrightarrow> path_join (path_join a []) n = path_join a n"
  by (simp add: path_join_def)

lemma path_of_folder_pos:
  "n \<noteq> [] \<Longrightarrow> hd n \<noteq> CHR ''/'' \<Longrightarrow>
   path_join (path_of out (folder_pos b)) n = path_join (target_folder out b) n"
  by (simp add: folder_pos_def target_folder_def path_of_def path_join_empty_mid)

lemma path_of_target_pos:
  assumes "CHR ''/'' \<notin> set f"
  shows "path_of out (target_pos b f) = target_path out b f"
proof -
  define nm where "nm = target_title b @ ''.'' @ f"
  have ne: "nm \<noteq> []" by (simp add: nm_def)
  have "hd nm \<noteq> CHR ''/''"
    using target_title_no_sep [of b] by (cases "target_title b") (auto simp: nm_def)
  with ne have "path_join (path_of out (folder_pos b)) nm = path_join (target_folder out b) nm"
    by (rule path_of_folder_pos)
  then show ?thesis
    by (simp add: target_pos_def target_path_def path_of_snoc nm_def)
qed

section \<open>The catalog that the reader builds\<close>

lemma map_entry_elem:
  "(k', v') \<in> set (AList.map_entry k f xs) \<Longrightarrow>
   (k', v') \<in> set xs \<or> (\<exists>v. (k', v) \<in> set xs \<and> v' = f v)"
  by (induction xs) (auto split: if_splits)

lemma fmt_ok_add_format:
  assumes "fmt_ok b" and "lower (r_format r) = ''cbr'' \<or> lower (r_format r) = ''cbz''"
  shows "fmt_ok (add_format r b)"
  using assms unfolding fmt_ok_def add_format_def
  by (auto simp: distinct_update dom_update)

lemma catalog_ok_add_row:
  assumes c: "catalog_ok c" and r: "lower (r_format r) = ''cbr'' \<or> lower (r_format r) = ''cbz''"
  shows "catalog_ok (add_row c r)"
proof -
  define c' where "c' = (if map_of c (r_id r) = None then c @ [(r_id r, new_book r)] else c)"
  have fresh: "map_of c (r_id r) = None \<Longrightarrow> r_id r \<notin> fst ` set c"
    by (simp add: map_of_eq_None_iff)
  have nb: "fmt_ok (new_book r)" by (simp add: fmt_ok_def new_book_def)
  have c': "catalog_ok c'"
    using c fresh nb unfolding c'_def catalog_ok_def by auto
  have eq: "add_row c r = AList.map_entry (r_id r) (add_format r) c'"
    by (simp add: add_row_def c'_def Let_def)
  have "distinct (map fst (AList.map_entry (r_id r) (add_format r) c'))"
    using c' by (simp add: catalog_ok_def distinct_map_entry)
  moreover have "fmt_ok b" if "(k, b) \<in> set (AList.map_entry (r_id r) (add_format r) c')" for k b
  proof -
    from map_entry_elem [OF that] show ?thesis
    proof
      assume "(k, b) \<in> set c'"
      with c' show ?thesis by (auto simp: catalog_ok_def)
    next
      assume "\<exists>v. (k, v) \<in> set c' \<and> b = add_format r v"
      then obtain v where "(k, v) \<in> set c'" "b = add_format r v" by blast
      with c' r show ?thesis by (auto simp: catalog_ok_def intro: fmt_ok_add_format)
    qed
  qed
  ultimately show ?thesis unfolding eq catalog_ok_def by auto
qed

lemma catalog_ok_foldl:
  "catalog_ok c \<Longrightarrow>
   \<forall>r \<in> set rs. lower (r_format r) = ''cbr'' \<or> lower (r_format r) = ''cbz'' \<Longrightarrow>
   catalog_ok (foldl add_row c rs)"
  by (induction rs arbitrary: c) (simp_all add: catalog_ok_add_row)

lemma catalog_ok_db: "catalog_ok (get_metadata_from_db db tag)"
  unfolding get_metadata_from_db_def
  by (rule catalog_ok_foldl) (simp_all add: catalog_ok_def fetchall_def)

lemma pairs_of_elem:
  "(k, b, f, fd) \<in> set (pairs_of c) \<longleftrightarrow> (k, b) \<in> set c \<and> (f, fd) \<in> set (formats b)"
  by (auto simp: pairs_of_def)

lemma pair_format:
  "catalog_ok c \<Longrightarrow> (k, b, f, fd) \<in> set (pairs_of c) \<Longrightarrow> f = ''cbr'' \<or> f = ''cbz''"
  unfolding catalog_ok_def fmt_ok_def pairs_of_elem by fastforce

lemma pair_lookup:
  "catalog_ok c \<Longrightarrow> (k, b, f, fd) \<in> set (pairs_of c) \<Longrightarrow>
   map_of c k = Some b \<and> map_of (formats b) f = Some fd"
  unfolding catalog_ok_def fmt_ok_def pairs_of_elem by fastforce

section \<open>Keys of the cache\<close>

lemma digit_char_inj: "a < 10 \<Longrightarrow> b < 10 \<Longrightarrow> digit_char a = digit_char b \<Longrightarrow> a = b"
proof -
  assume a: "a < 10" and b: "b < 10" and e: "digit_char a = digit_char b"
  have d: "distinct ''0123456789''" by simp
  have "a < length ''0123456789''" "b < length ''0123456789''" using a b by simp_all
  with d e show "a = b" unfolding digit_char_def by (simp only: nth_eq_iff_index_eq)
qed

lemma digits_not_Nil: "digits n \<noteq> []"
  by (subst digits.simps) simp

lemma digits_small: "n < 10 \<Longrightarrow> digits n = [digit_char n]"
  by (subst digits.simps) simp

lemma digits_big: "\<not> n < 10 \<Longrightarrow> digits n = digits (n div 10) @ [digit_char (n mod 10)]"
  by (subst digits.simps) simp

lemma digits_inj: "digits n = digits m \<Longrightarrow> n = m"
proof (induction n arbitrary: m rule: digits.induct)
  case (1 n)
  show ?case
  proof (cases "n < 10")
    case n: True
    show ?thesis
    proof (cases "m < 10")
      case True
      with n "1.prems" show ?thesis by (simp add: digits_small digit_char_inj)
    next
      case False
      with n "1.prems" show ?thesis
        using digits_not_Nil [of "m div 10"] by (simp add: digits_small digits_big)
    qed
  next
    case n: False
    show ?thesis
    proof (cases "m < 10")
      case True
      with n "1.prems" show ?thesis
        using digits_not_Nil [of "n div 10"] by (simp add: digits_small digits_big)
    next
      case False
      with n "1.prems" have e: "digits (n div 10) = digits (m div 10)"
        and d: "digit_char (n mod 10) = digit_char (m mod 10)"
        by (simp_all add: digits_big)
      from "1.IH" [OF n e] have "n div 10 = m div 10" .
      moreover from d have "n mod 10 = m mod 10" by (intro digit_char_inj) simp_all
      ultimately show ?thesis by (metis div_mult_mod_eq)
    qed
  qed
qed

lemma digit_char_not_minus: "d < 10 \<Longrightarrow> digit_char d \<noteq> CHR ''-''"
proof -
  assume "d < 10"
  then have "digit_char d \<in> set ''0123456789''"
    unfolding digit_char_def by (intro nth_mem) simp
  then show ?thesis by auto
qed

lemma hd_digits_not_minus: "hd (digits n) \<noteq> CHR ''-''"
proof (induction n rule: digits.induct)
  case (1 n)
  show ?case
  proof (cases "n < 10")
    case True
    then show ?thesis by (simp add: digits_small digit_char_not_minus)
  next
    case False
    with 1 show ?thesis by (simp add: digits_big digits_not_Nil)
  qed
qed

lemma inj_str_int: "inj str_int"
proof (rule injI)
  fix k l :: int
  assume e: "str_int k = str_int l"
  have neg: False if "a < 0" "\<not> b < 0" "str_int a = str_int b" for a b :: int
  proof -
    from that have "CHR ''-'' # digits (nat (- a)) = digits (nat b)" by (simp add: str_int_def)
    then have "hd (digits (nat b)) = CHR ''-''" by (metis list.sel(1))
    then show False by (simp add: hd_digits_not_minus)
  qed
  show "k = l"
  proof (cases "k < 0")
    case k: True
    show ?thesis
    proof (cases "l < 0")
      case True
      with k e have "digits (nat (- k)) = digits (nat (- l))" by (simp add: str_int_def)
      then have "nat (- k) = nat (- l)" by (rule digits_inj)
      with k True show ?thesis by simp
    next
      case False
      with k e neg [of k l] show ?thesis by simp
    qed
  next
    case k: False
    show ?thesis
    proof (cases "l < 0")
      case True
      with k e neg [of l k] show ?thesis by simp
    next
      case False
      with k e have "digits (nat k) = digits (nat l)" by (simp add: str_int_def)
      then have "nat k = nat l" by (rule digits_inj)
      with k False show ?thesis by simp
    qed
  qed
qed

lemma snapshot_lookup:
  "map_of c k = Some b \<Longrightarrow> map_of (map (\<lambda>(k, v). (str_int k, v)) c) (str_int k) = Some b"
  using map_of_mapk_SomeI [OF inj_str_int, of c k b] by (simp add: case_prod_unfold)

section \<open>The store while the targets are computed\<close>

lemma dirs_added_refl: "dirs_added w w"
  by (simp add: dirs_added_def)

lemma dirs_added_trans: "dirs_added w w' \<Longrightarrow> dirs_added w' w'' \<Longrightarrow> dirs_added w w''"
  unfolding dirs_added_def
proof (intro conjI allI)
  assume a: "lib w' = lib w \<and> (\<forall>q. node_at (tree w') q = node_at (tree w) q
             \<or> (node_at (tree w) q = None \<and> node_at (tree w') q = Some (Dir True) \<and> dotless q))"
    and b: "lib w'' = lib w' \<and> (\<forall>q. node_at (tree w'') q = node_at (tree w') q
             \<or> (node_at (tree w') q = None \<and> node_at (tree w'') q = Some (Dir True) \<and> dotless q))"
  show "lib w'' = lib w" using a b by simp
  fix q
  from a have "node_at (tree w') q = node_at (tree w) q
      \<or> (node_at (tree w) q = None \<and> node_at (tree w') q = Some (Dir True) \<and> dotless q)"
    by blast
  moreover from b have "node_at (tree w'') q = node_at (tree w') q
      \<or> (node_at (tree w') q = None \<and> node_at (tree w'') q = Some (Dir True) \<and> dotless q)"
    by blast
  ultimately show "node_at (tree w'') q = node_at (tree w) q
      \<or> (node_at (tree w) q = None \<and> node_at (tree w'') q = Some (Dir True) \<and> dotless q)"
    by auto
qed

lemma dirs_added_logging: "dirs_added w (logging e w)"
  by (simp add: dirs_added_def logging_def)

lemma clean_no_dot: "CHR ''.'' \<notin> set (clean s)"
proof -
  have "set (clean s) \<subseteq> {c. keep_char c}"
    unfolding clean_def using set_strip [of "filter keep_char s"] by auto
  moreover have "\<not> keep_char CHR ''.''"
    by (simp add: keep_char_def isalnum_def)
  ultimately show ?thesis by blast
qed

lemma dotless_folder_pos: "dotless (folder_pos b)"
  by (simp add: dotless_def folder_pos_def clean_no_dot)

lemma dotless_prefix: "dotless p \<Longrightarrow> prefix q p \<Longrightarrow> dotless q"
  by (auto simp: dotless_def prefix_def)

lemma target_pos_not_dotless: "\<not> dotless (target_pos b f)"
  by (simp add: dotless_def target_pos_def)

lemma os_makedirs_node:
  assumes "os_makedirs out s w = Inr w'"
  shows "lib w' = lib w \<and> log w' = log w
         \<and> (\<exists>p. locate out s = Some p
              \<and> (\<forall>q. node_at (tree w') q = node_at (tree w) q
                     \<or> (node_at (tree w) q = None \<and> node_at (tree w') q = Some (Dir True)
                         \<and> prefix q p)))"
proof -
  from assms obtain p t' where p: "locate out s = Some p"
    and m: "makedirs_levels (tree w) (prefixes p) = Inr t'" and w': "w' = w\<lparr>tree := t'\<rparr>"
    by (auto simp: os_makedirs_def split: option.splits sum.splits)
  have "node_at t' q = node_at (tree w) q
        \<or> (node_at (tree w) q = None \<and> node_at t' q = Some (Dir True) \<and> prefix q p)" for q
    using makedirs_levels_node [OF m, of q] by (auto simp: in_set_prefixes)
  with p w' show ?thesis by simp
qed

lemma get_target_path_frame:
  assumes "get_target_path M b f w = (r, w')"
  shows "dirs_added w w' \<and> log w' = log w
         \<and> (\<forall>s. r = Inr s \<longrightarrow> s = target_path (output_path M) b f)"
proof (cases "os_makedirs (output_path M) (target_folder (output_path M) b) w")
  case (Inl e)
  with assms show ?thesis by (auto simp: get_target_path_def dirs_added_refl)
next
  case (Inr w1)
  with assms have r: "r = Inr (target_path (output_path M) b f)" and w': "w' = w1"
    by (auto simp: get_target_path_def)
  from os_makedirs_node [OF Inr] have l: "lib w1 = lib w" "log w1 = log w"
    and n: "\<And>q. node_at (tree w1) q = node_at (tree w) q
                \<or> (node_at (tree w) q = None \<and> node_at (tree w1) q = Some (Dir True)
                    \<and> prefix q (folder_pos b))"
    by (auto simp: locate_target_folder)
  have "dirs_added w w1"
    unfolding dirs_added_def using l n dotless_prefix [OF dotless_folder_pos] by blast
  with r w' l show ?thesis by simp
qed

section \<open>The first loop\<close>

lemma exists_at_dirs_added:
  "dirs_added w w' \<Longrightarrow> \<not> dotless p \<Longrightarrow> exists_at w' p = exists_at w p"
  unfolding dirs_added_def exists_at_def by metis

lemma target_exists_dirs_added:
  assumes "dirs_added w w'" and "CHR ''/'' \<notin> set f"
  shows "os_path_exists out w' (target_path out b f) = os_path_exists out w (target_path out b f)"
  using exists_at_dirs_added [OF assms(1) target_pos_not_dotless, of b f]
  by (simp add: os_path_exists_def locate_target_path [OF assms(2)])

lemma needed_dirs_added:
  assumes "dirs_added w w'" and "CHR ''/'' \<notin> set (fst (snd (snd pr)))"
  shows "needed M cached w' pr = needed M cached w pr"
proof -
  obtain k b f fd where pr: "pr = (k, b, f, fd)" by (cases pr) auto
  with assms(2) have f: "CHR ''/'' \<notin> set f" by simp
  show ?thesis
    unfolding pr needed_def needs_update_def
    by (simp add: target_exists_dirs_added [OF assms(1) f] split: option.splits)
qed

lemma find_updates_frame:
  "find_updates M cached ps acc w = (r, w') \<Longrightarrow> dirs_added w w' \<and> log w' = log w"
proof (induction ps arbitrary: acc w)
  case Nil
  then show ?case by (simp add: dirs_added_refl)
next
  case (Cons pr ps)
  obtain k b f fd where pr: "pr = (k, b, f, fd)" by (cases pr) auto
  obtain r1 w1 where g: "get_target_path M b f w = (r1, w1)" by (cases "get_target_path M b f w")
  from get_target_path_frame [OF g] have d1: "dirs_added w w1" "log w1 = log w" by simp_all
  show ?case
  proof (cases r1)
    case (Inl e)
    with Cons.prems g pr d1 show ?thesis by simp
  next
    case (Inr tg)
    with Cons.prems g pr obtain acc' where "find_updates M cached ps acc' w1 = (r, w')"
      by (simp split: if_splits)
    from Cons.IH [OF this] d1 show ?thesis by (auto intro: dirs_added_trans)
  qed
qed

lemma find_updates_result:
  assumes "find_updates M cached ps acc w = (Inr to_process, w')"
    and "\<forall>pr \<in> set ps. CHR ''/'' \<notin> set (fst (snd (snd pr)))"
  shows "to_process = acc @ map (work_of M) (filter (needed M cached w) ps)"
  using assms
proof (induction ps arbitrary: acc w)
  case Nil
  then show ?case by simp
next
  case (Cons pr ps)
  obtain k b f fd where pr: "pr = (k, b, f, fd)" by (cases pr) auto
  obtain r1 w1 where g: "get_target_path M b f w = (r1, w1)" by (cases "get_target_path M b f w")
  from get_target_path_frame [OF g] have d1: "dirs_added w w1"
    and tg: "\<And>s. r1 = Inr s \<Longrightarrow> s = target_path (output_path M) b f" by simp_all
  from Cons.prems(1) g pr obtain s where r1: "r1 = Inr s"
    by (cases r1) auto
  with tg have s: "s = target_path (output_path M) b f" by simp
  define acc' where "acc' = (if needed M cached w1 pr then acc @ [work_of M pr] else acc)"
  have step: "find_updates M cached ps acc' w1 = (Inr to_process, w')"
    using Cons.prems(1) g pr r1 s
    by (cases "needs_update M cached w1 k b f fd (target_path (output_path M) b f)")
       (simp_all add: acc'_def needed_def work_of_def)
  have sl: "CHR ''/'' \<notin> set (fst (snd (snd pr)))" and rest: "\<forall>pr \<in> set ps. CHR ''/'' \<notin> set (fst (snd (snd pr)))"
    using Cons.prems(2) by simp_all
  have n1: "needed M cached w1 pr = needed M cached w pr"
    using d1 sl by (rule needed_dirs_added)
  have "filter (needed M cached w1) ps = filter (needed M cached w) ps"
    using rest by (intro filter_cong refl needed_dirs_added [OF d1]) simp
  with Cons.IH [OF step rest] show ?case
    by (simp add: acc'_def n1)
qed

lemma collect_current_files_frame:
  "collect_current_files M ps acc w = (r, w') \<Longrightarrow> dirs_added w w' \<and> log w' = log w"
proof (induction ps arbitrary: acc w)
  case Nil
  then show ?case by (simp add: dirs_added_refl)
next
  case (Cons pr ps)
  obtain k b f fd where pr: "pr = (k, b, f, fd)" by (cases pr) auto
  obtain r1 w1 where g: "get_target_path M b f w = (r1, w1)" by (cases "get_target_path M b f w")
  from get_target_path_frame [OF g] have d1: "dirs_added w w1" "log w1 = log w" by simp_all
  show ?case
  proof (cases r1)
    case (Inl e)
    with Cons.prems g pr d1 show ?thesis by simp
  next
    case (Inr tg)
    with Cons.prems g pr have "collect_current_files M ps (acc @ [tg]) w1 = (r, w')"
      by simp
    from Cons.IH [OF this] d1 show ?thesis by (auto intro: dirs_added_trans)
  qed
qed

lemma collect_current_files_result:
  "collect_current_files M ps acc w = (Inr cf, w') \<Longrightarrow>
   cf = acc @ map (\<lambda>(k, b, f, fd). target_path (output_path M) b f) ps"
proof (induction ps arbitrary: acc w)
  case Nil
  then show ?case by simp
next
  case (Cons pr ps)
  obtain k b f fd where pr: "pr = (k, b, f, fd)" by (cases pr) auto
  obtain r1 w1 where g: "get_target_path M b f w = (r1, w1)" by (cases "get_target_path M b f w")
  from get_target_path_frame [OF g]
  have tg: "\<And>s. r1 = Inr s \<Longrightarrow> s = target_path (output_path M) b f" by simp
  from Cons.prems g pr obtain s where r1: "r1 = Inr s" by (cases r1) auto
  with tg have s: "s = target_path (output_path M) b f" by simp
  from Cons.prems g pr r1 have "collect_current_files M ps (acc @ [s]) w1 = (Inr cf, w')"
    by simp
  from Cons.IH [OF this] show ?case by (simp add: pr s)
qed

section \<open>The two collections\<close>

lemma cache_pos:
  "locate (output_path M) (metadata_cache_file M) = Some [''.metadata_cache.json'']"
  unfolding metadata_cache_file_def by (subst locate_path_join) simp_all

lemma load_metadata_cache_logging:
  "fst (load_metadata_cache M (logging e w)) = fst (load_metadata_cache M w)"
  by (simp add: load_metadata_cache_def os_path_exists_def json_load_file_def exists_at_def
      read_at_def logging_def cache_pos
      split: option.splits node.splits sum.splits content.splits error.splits)

lemma load_metadata_cache_frame:
  "load_metadata_cache M w = (r, w') \<Longrightarrow> tree w' = tree w \<and> lib w' = lib w"
  by (auto simp: load_metadata_cache_def logging_def
      split: if_splits sum.splits error.splits)

lemma dirs_added_same: "tree w' = tree w \<Longrightarrow> lib w' = lib w \<Longrightarrow> dirs_added w w'"
  by (simp add: dirs_added_def)

lemma reconcile_parts:
  assumes "fst (reconcile M db tag w) = Inr (to_process, to_remove)"
  shows "\<exists>cached w2 w3 cf.
           fst (load_metadata_cache M w) = Inr cached
           \<and> dirs_added w w2
           \<and> find_updates M cached (pairs_of (get_metadata_from_db db tag)) [] w2
               = (Inr to_process, w3)
           \<and> collect_current_files M (pairs_of (get_metadata_from_db db tag)) [] w3
               = (Inr cf, snd (reconcile M db tag w))
           \<and> to_remove = filter (\<lambda>f. f \<notin> set cf)
                            (remdups (existing_files M (snd (reconcile M db tag w))))"
proof -
  define w1 where "w1 = logging (Starting_sync tag) w"
  define ps where "ps = pairs_of (get_metadata_from_db db tag)"
  obtain r2 w2 where l: "load_metadata_cache M w1 = (r2, w2)"
    by (cases "load_metadata_cache M w1")
  from assms l obtain cached where r2: "r2 = Inr cached"
    by (cases r2) (auto simp: reconcile_def w1_def Let_def)
  obtain r3 w3 where f: "find_updates M cached ps [] w2 = (r3, w3)"
    by (cases "find_updates M cached ps [] w2")
  from assms l r2 f obtain tp where r3: "r3 = Inr tp"
    by (cases r3) (auto simp: reconcile_def w1_def ps_def Let_def)
  obtain r4 w4 where c: "collect_current_files M ps [] w3 = (r4, w4)"
    by (cases "collect_current_files M ps [] w3")
  from assms l r2 f r3 c obtain cf where r4: "r4 = Inr cf"
    by (cases r4) (auto simp: reconcile_def w1_def ps_def Let_def)
  have res: "reconcile M db tag w
      = (Inr (tp, filter (\<lambda>f. f \<notin> set cf) (remdups (existing_files M w4))), w4)"
    using l r2 f r3 c r4 by (simp add: reconcile_def w1_def ps_def Let_def)
  with assms have tp: "tp = to_process"
    and tr: "to_remove = filter (\<lambda>f. f \<notin> set cf) (remdups (existing_files M w4))"
    by simp_all
  have "fst (load_metadata_cache M w) = Inr cached"
    using l r2 load_metadata_cache_logging [of M "Starting_sync tag" w] by (simp add: w1_def)
  moreover have "dirs_added w w2"
  proof -
    have "dirs_added w w1" unfolding w1_def by (rule dirs_added_logging)
    moreover have "dirs_added w1 w2"
      using load_metadata_cache_frame [OF l] by (simp add: dirs_added_same)
    ultimately show ?thesis by (rule dirs_added_trans)
  qed
  ultimately show ?thesis
    using f r3 c r4 tp tr res unfolding ps_def by (intro exI [of _ cached] exI [of _ w2] exI [of _ w3] exI [of _ cf]) simp
qed

lemma reconcile_frame: "dirs_added w (snd (reconcile M db tag w))"
proof -
  define w1 where "w1 = logging (Starting_sync tag) w"
  define ps where "ps = pairs_of (get_metadata_from_db db tag)"
  have d1: "dirs_added w w1" unfolding w1_def by (rule dirs_added_logging)
  obtain r2 w2 where l: "load_metadata_cache M w1 = (r2, w2)"
    by (cases "load_metadata_cache M w1")
  have d2: "dirs_added w w2"
    using d1 load_metadata_cache_frame [OF l] by (auto intro: dirs_added_trans dirs_added_same)
  show ?thesis
  proof (cases r2)
    case (Inl e)
    with l d2 show ?thesis by (simp add: reconcile_def w1_def Let_def)
  next
    case (Inr cached)
    obtain r3 w3 where f: "find_updates M cached ps [] w2 = (r3, w3)"
      by (cases "find_updates M cached ps [] w2")
    from find_updates_frame [OF f] d2 have d3: "dirs_added w w3"
      by (auto intro: dirs_added_trans)
    show ?thesis
    proof (cases r3)
      case (Inl e)
      with l Inr f d3 show ?thesis by (simp add: reconcile_def w1_def ps_def Let_def)
    next
      case tp: (Inr tp)
      obtain r4 w4 where c: "collect_current_files M ps [] w3 = (r4, w4)"
        by (cases "collect_current_files M ps [] w3")
      from collect_current_files_frame [OF c] d3 have d4: "dirs_added w w4"
        by (auto intro: dirs_added_trans)
      with l Inr f tp c show ?thesis
        by (cases r4) (simp_all add: reconcile_def w1_def ps_def Let_def)
    qed
  qed
qed

lemma pairs_no_sep:
  "\<forall>pr \<in> set (pairs_of (get_metadata_from_db db tag)). CHR ''/'' \<notin> set (fst (snd (snd pr)))"
proof
  fix pr
  assume p: "pr \<in> set (pairs_of (get_metadata_from_db db tag))"
  obtain k b f fd where pr: "pr = (k, b, f, fd)" by (cases pr) auto
  from pair_format [OF catalog_ok_db] p pr have "f = ''cbr'' \<or> f = ''cbz''" by blast
  then show "CHR ''/'' \<notin> set (fst (snd (snd pr)))" by (auto simp: pr)
qed

lemma to_process_set:
  assumes "fst (reconcile M db tag w) = Inr (to_process, to_remove)"
    and "fst (load_metadata_cache M w) = Inr cached"
  shows "to_process = map (work_of M)
           (filter (needed M cached w) (pairs_of (get_metadata_from_db db tag)))"
proof -
  from reconcile_parts [OF assms(1)] assms(2) obtain w2 w3 where d: "dirs_added w w2"
    and f: "find_updates M cached (pairs_of (get_metadata_from_db db tag)) [] w2
              = (Inr to_process, w3)"
    by auto
  have "to_process = [] @ map (work_of M)
           (filter (needed M cached w2) (pairs_of (get_metadata_from_db db tag)))"
    using f pairs_no_sep by (rule find_updates_result)
  moreover have "filter (needed M cached w2) (pairs_of (get_metadata_from_db db tag))
      = filter (needed M cached w) (pairs_of (get_metadata_from_db db tag))"
    using pairs_no_sep by (intro filter_cong refl needed_dirs_added [OF d]) blast
  ultimately show ?thesis by simp
qed

section \<open>Which pairs are processed\<close>

lemma work_of_eq:
  "work_of M (k', b', f', fd') = (s, tg, k, b, f) \<longleftrightarrow>
   k' = k \<and> b' = b \<and> f' = f \<and> s = source_path M b f fd'
   \<and> tg = target_path (output_path M) b f"
  by (auto simp: work_of_def)

text \<open>
  C3: when the reconciler has computed its two collections, a (book, format) pair of the
  current catalog is in \<^verbatim>\<open>to_process\<close> exactly when the book's id is not in the
  loaded cache, or the format is not among the cached formats, or the cached
  \<^verbatim>\<open>last_modified\<close> of the format differs, or the cached \<^verbatim>\<open>metadata\<close> differs, or
  the target file does not exist; otherwise the pair is skipped.
\<close>

theorem to_process_membership:
  assumes "fst (reconcile M db tag w) = Inr (to_process, to_remove)"
    and "fst (load_metadata_cache M w) = Inr cached"
    and "(book_id, b, format_type, fd) \<in> set (pairs_of (get_metadata_from_db db tag))"
  shows "(source_path M b format_type fd, target_path (output_path M) b format_type,
          book_id, b, format_type) \<in> set to_process
         \<longleftrightarrow>
         (map_of cached (str_int book_id) = None
          \<or> (\<exists>cached_book. map_of cached (str_int book_id) = Some cached_book
               \<and> (map_of (formats cached_book) format_type = None
                    \<or> (\<exists>cfd. map_of (formats cached_book) format_type = Some cfd
                         \<and> \<not> py_eq (last_modified cfd) (last_modified fd))
                    \<or> \<not> metadata_eq (metadata cached_book) (metadata b)
                    \<or> \<not> os_path_exists (output_path M) w
                           (target_path (output_path M) b format_type))))"
proof -
  let ?ps = "pairs_of (get_metadata_from_db db tag)"
  let ?item = "(source_path M b format_type fd, target_path (output_path M) b format_type,
          book_id, b, format_type)"
  have tp: "to_process = map (work_of M) (filter (needed M cached w) ?ps)"
    using assms(1,2) by (rule to_process_set)
  have same: "fd' = fd" if "(book_id, b, format_type, fd') \<in> set ?ps" for fd'
    using pair_lookup [OF catalog_ok_db that] pair_lookup [OF catalog_ok_db assms(3)] by simp
  have "?item \<in> set to_process \<longleftrightarrow> needed M cached w (book_id, b, format_type, fd)"
  proof
    assume "?item \<in> set to_process"
    then obtain pr where pr: "pr \<in> set ?ps" "needed M cached w pr" "work_of M pr = ?item"
      unfolding tp by auto
    obtain k' b' f' fd' where p: "pr = (k', b', f', fd')" by (cases pr) auto
    with pr(3) have "k' = book_id" "b' = b" "f' = format_type" by (simp_all add: work_of_eq)
    with pr(1) p same have "pr = (book_id, b, format_type, fd)" by simp
    with pr(2) show "needed M cached w (book_id, b, format_type, fd)" by simp
  next
    assume "needed M cached w (book_id, b, format_type, fd)"
    with assms(3) have "work_of M (book_id, b, format_type, fd) \<in> set to_process"
      unfolding tp by simp
    then show "?item \<in> set to_process" by (simp add: work_of_def)
  qed
  also have "\<dots> \<longleftrightarrow>
         (map_of cached (str_int book_id) = None
          \<or> (\<exists>cached_book. map_of cached (str_int book_id) = Some cached_book
               \<and> (map_of (formats cached_book) format_type = None
                    \<or> (\<exists>cfd. map_of (formats cached_book) format_type = Some cfd
                         \<and> \<not> py_eq (last_modified cfd) (last_modified fd))
                    \<or> \<not> metadata_eq (metadata cached_book) (metadata b)
                    \<or> \<not> os_path_exists (output_path M) w
                           (target_path (output_path M) b format_type))))"
    unfolding needed_def needs_update_def by (auto split: option.splits)
  finally show ?thesis .
qed

theorem to_process_membership_witness:
  "fst (reconcile copy_manager [row_batman, row_annual] ''Comics'' synced_world)
     = Inr ([(''/lib/DC/Annual (2)/Annual - DC.cbr'', ''/out/No Series/Annual.cbr'', 2 :: int,
              book_annual, ''cbr'')], [])
   \<and> fst (load_metadata_cache copy_manager synced_world) = Inr [(''1'', book_batman)]
   \<and> (2, book_annual, ''cbr'', snd (hd (formats book_annual)))
       \<in> set (pairs_of (get_metadata_from_db [row_batman, row_annual] ''Comics''))
   \<and> (source_path copy_manager book_annual ''cbr'' (snd (hd (formats book_annual))),
       target_path (output_path copy_manager) book_annual ''cbr'', 2 :: int, book_annual, ''cbr'')
       \<in> set [(''/lib/DC/Annual (2)/Annual - DC.cbr'', ''/out/No Series/Annual.cbr'', 2 :: int,
                book_annual, ''cbr'')]
   \<and> map_of [(''1'', book_batman)] (str_int 2) = None"
proof -
  have h1: "fst (reconcile copy_manager [row_batman, row_annual] ''Comics'' synced_world)
     = Inr ([(''/lib/DC/Annual (2)/Annual - DC.cbr'', ''/out/No Series/Annual.cbr'', 2 :: int,
              book_annual, ''cbr'')], [])"
    by code_simp
  have h2: "fst (load_metadata_cache copy_manager synced_world) = Inr [(''1'', book_batman)]"
    by code_simp
  have h3: "(2, book_annual, ''cbr'', snd (hd (formats book_annual)))
       \<in> set (pairs_of (get_metadata_from_db [row_batman, row_annual] ''Comics''))"
    by code_simp
  have h4: "map_of [(''1'', book_batman)] (str_int 2) = None"
    by code_simp
  from to_process_membership [OF h1 h2 h3] h4 h1 h2 h3 show ?thesis by blast
qed

section \<open>Loading the cache\<close>

lemma needed_empty_cache: "needed M [] w pr"
  by (cases pr) (simp add: needed_def needs_update_def)

text \<open>
  The cases that the load handles: when the cache file is missing, or holds text that is
  no JSON document, loading the cache gives the empty mapping and raises nothing, the
  warning is logged in the second case, and every (book, format) pair of the catalog is
  then placed in \<^verbatim>\<open>to_process\<close>.
\<close>

lemma load_cache_missing_or_not_json:
  assumes "node_at (tree w) [''.metadata_cache.json''] = None
           \<or> node_at (tree w) [''.metadata_cache.json''] = Some (File Text_not_json)"
  shows "fst (load_metadata_cache M w) = Inr []
         \<and> log (snd (load_metadata_cache M w))
             = (if node_at (tree w) [''.metadata_cache.json''] = None then log w
                else log w @ [Corrupted_cache])
         \<and> (\<forall>to_process to_remove.
               fst (reconcile M db tag w) = Inr (to_process, to_remove) \<longrightarrow>
               to_process = map (work_of M) (pairs_of (get_metadata_from_db db tag)))"
proof -
  have l: "fst (load_metadata_cache M w) = Inr []"
    using assms
    by (auto simp: load_metadata_cache_def os_path_exists_def exists_at_def cache_pos
        json_load_file_def read_at_def)
  have g: "log (snd (load_metadata_cache M w))
             = (if node_at (tree w) [''.metadata_cache.json''] = None then log w
                else log w @ [Corrupted_cache])"
    using assms
    by (auto simp: load_metadata_cache_def os_path_exists_def exists_at_def cache_pos
        json_load_file_def read_at_def logging_def)
  have "to_process = map (work_of M) (pairs_of (get_metadata_from_db db tag))"
    if "fst (reconcile M db tag w) = Inr (to_process, to_remove)" for to_process to_remove
    using to_process_set [OF that l] by (simp add: needed_empty_cache)
  with l g show ?thesis by blast
qed

lemma load_cache_missing_or_not_json_witness:
  "(node_at (tree truncated_world) [''.metadata_cache.json''] = None
    \<or> node_at (tree truncated_world) [''.metadata_cache.json''] = Some (File Text_not_json))
   \<and> fst (load_metadata_cache copy_manager truncated_world) = Inr []
   \<and> log (snd (load_metadata_cache copy_manager truncated_world)) = [Corrupted_cache]
   \<and> fst (reconcile copy_manager [row_batman] ''Comics'' truncated_world)
       = Inr ([(''/lib/DC/Batman (1)/Batman - DC.cbz'',
                ''/out/Detective Comics/3.0 - Batman.cbz'', 1 :: int, book_batman, ''cbz'')], [])
   \<and> [(''/lib/DC/Batman (1)/Batman - DC.cbz'',
        ''/out/Detective Comics/3.0 - Batman.cbz'', 1 :: int, book_batman, ''cbz'')]
       = map (work_of copy_manager) (pairs_of (get_metadata_from_db [row_batman] ''Comics''))"
proof -
  have h: "node_at (tree truncated_world) [''.metadata_cache.json''] = None
    \<or> node_at (tree truncated_world) [''.metadata_cache.json''] = Some (File Text_not_json)"
    by code_simp
  have n: "node_at (tree truncated_world) [''.metadata_cache.json''] \<noteq> None"
    by code_simp
  have lg: "log truncated_world = []"
    by (simp add: truncated_world_def)
  have r: "fst (reconcile copy_manager [row_batman] ''Comics'' truncated_world)
       = Inr ([(''/lib/DC/Batman (1)/Batman - DC.cbz'',
                ''/out/Detective Comics/3.0 - Batman.cbz'', 1 :: int, book_batman, ''cbz'')], [])"
    by code_simp
  from load_cache_missing_or_not_json [OF h, of copy_manager "[row_batman]" "''Comics''"] h n lg r
  show ?thesis by auto
qed

text \<open>
  C7, at a cache file whose bytes are no text: reading it raises
  \<^verbatim>\<open>UnicodeDecodeError\<close>, which is not the \<^verbatim>\<open>json.JSONDecodeError\<close> that the load
  catches to start afresh from a corrupted cache, so the load raises and the pass ends
  in its first step.
\<close>

theorem load_cache_not_text_raises:
  "fst (load_metadata_cache copy_manager garbled_world) = Inl UnicodeDecodeError
   \<and> fst (sync_tag copy_manager [row_batman] ''Comics'' garbled_world)
       = Some (Reconcile, UnicodeDecodeError)"
  by code_simp

section \<open>The store after an operation of the program\<close>

lemma is_file_simps [simp]:
  "is_file (File c)" "is_file (Link l)" "\<not> is_file (Dir wr)"
  by (simp_all add: is_file_def)

lemma not_dir_is_file: "(\<forall>wr. k \<noteq> Dir wr) \<longleftrightarrow> is_file k"
  by (cases k) simp_all

lemma os_remove_node:
  assumes "os_remove out s w = Inr w'"
  shows "\<exists>p k. locate out s = Some p \<and> lib w' = lib w \<and> log w' = log w
           \<and> node_at (tree w) p = Some k \<and> is_file k
           \<and> (\<forall>q. node_at (tree w') q = (if q = p then None else node_at (tree w) q))"
proof -
  from assms obtain p t' where p: "locate out s = Some p"
    and r: "remove_at (tree w) p = Inr t'" and w': "w' = w\<lparr>tree := t'\<rparr>"
    by (auto simp: os_remove_def split: option.splits sum.splits)
  from remove_at_was_file [OF r] obtain k where "node_at (tree w) p = Some k" "is_file k"
    by (auto simp: not_dir_is_file)
  with p w' remove_at_node [OF r] show ?thesis by simp
qed

lemma os_symlink_node:
  assumes "os_symlink out src dst w = Inr w'"
  shows "\<exists>p. locate out dst = Some p \<and> lib w' = lib w \<and> log w' = log w
           \<and> (\<forall>q. node_at (tree w') q = (if q = p then Some (Link src) else node_at (tree w) q))"
proof -
  from assms obtain p where p: "locate out dst = Some p"
    and none: "node_at (tree w) p = None" and ce: "create_error (tree w) p = None"
    and w': "w' = w\<lparr>tree := AList.update p (Link src) (tree w)\<rparr>"
    by (auto simp: os_symlink_def split: option.splits if_splits)
  have r: "reachable (tree w) p" using ce by (rule create_ok_reachable)
  with none have "\<not> is_dir_at (tree w) p" by (simp add: node_at_def is_dir_at_def)
  with r have "node_at (AList.update p (Link src) (tree w)) q
      = (if q = p then Some (Link src) else node_at (tree w) q)" for q
    by (intro update_leaf_node) simp_all
  with p w' show ?thesis by simp
qed

lemma write_at_node:
  assumes "write_at p c w = Inr w'"
  shows "log w' = log w \<and> read_at w' p = Inr c
         \<and> (\<forall>q. q \<noteq> p \<longrightarrow> node_at (tree w') q = node_at (tree w) q)
         \<and> (\<exists>k. node_at (tree w') p = Some k \<and> is_file k)
         \<and> (\<forall>x. node_at (tree w) p = Some (File x) \<longrightarrow> node_at (tree w') p = Some (File c))
         \<and> (\<forall>l x. lib w l = Some x \<longrightarrow> (\<exists>y. lib w' l = Some y))"
proof (cases "node_at (tree w) p")
  case None
  with assms have ce: "create_error (tree w) p = None"
    and w': "w' = w\<lparr>tree := AList.update p (File c) (tree w)\<rparr>"
    by (auto simp: write_at_def split: option.splits)
  have r: "reachable (tree w) p" using ce by (rule create_ok_reachable)
  with None have "\<not> is_dir_at (tree w) p" by (simp add: node_at_def is_dir_at_def)
  with r have "node_at (AList.update p (File c) (tree w)) q
      = (if q = p then Some (File c) else node_at (tree w) q)" for q
    by (intro update_leaf_node) simp_all
  with w' None show ?thesis by (simp add: read_at_def)
next
  case (Some k)
  then have r: "reachable (tree w) p" and m: "map_of (tree w) p = Some k"
    by (auto dest: node_at_Some_reachable)
  show ?thesis
  proof (cases k)
    case (Dir wr)
    with assms Some show ?thesis by (simp add: write_at_def)
  next
    case (File old)
    with assms Some have w': "w' = w\<lparr>tree := AList.update p (File c) (tree w)\<rparr>"
      by (simp add: write_at_def)
    have "\<not> is_dir_at (tree w) p" using m File by (simp add: is_dir_at_def)
    with r have "node_at (AList.update p (File c) (tree w)) q
        = (if q = p then Some (File c) else node_at (tree w) q)" for q
      by (intro update_leaf_node) simp_all
    with w' show ?thesis by (simp add: read_at_def)
  next
    case (Link l)
    with assms Some have w': "w' = w\<lparr>lib := (lib w)(l \<mapsto> c)\<rparr>"
      by (simp add: write_at_def)
    with Some Link show ?thesis by (simp add: read_at_def)
  qed
qed

section \<open>The materialization worker and the tree\<close>

lemma same_except_refl: "same_except p w w"
  by (simp add: same_except_def lib_kept_def)

lemma same_except_trans: "same_except p w w' \<Longrightarrow> same_except p w' w'' \<Longrightarrow> same_except p w w''"
  unfolding same_except_def lib_kept_def by metis

lemma same_except_logging: "same_except p w (logging e w)"
  by (simp add: same_except_def lib_kept_def logging_def)

lemma shutil_copy_write:
  assumes "shutil_copy out src dst w = Inr w'" and "locate out dst = Some p"
    and "\<not> (is_dir_at (tree w) p \<and> reachable (tree w) p)"
  shows "\<exists>c. write_at p c w = Inr w'"
  using assms by (auto simp: shutil_copy_def Let_def split: if_splits option.splits)

lemma process_file_body_frame:
  assumes b: "process_file_body M s tg w = (r, w')"
    and p: "locate (output_path M) tg = Some p"
  shows "same_except p w w'"
proof -
  define a where "a = (if os_path_exists (output_path M) w tg
                       then os_remove (output_path M) tg w else Inr w)"
  show ?thesis
  proof (cases a)
    case (Inl e)
    with b show ?thesis by (simp add: process_file_body_def a_def same_except_refl)
  next
    case (Inr w1)
    have s1: "same_except p w w1" and nd: "\<not> (is_dir_at (tree w1) p \<and> reachable (tree w1) p)"
    proof -
      show "same_except p w w1"
      proof (cases "os_path_exists (output_path M) w tg")
        case True
        with Inr have "os_remove (output_path M) tg w = Inr w1" by (simp add: a_def)
        from os_remove_node [OF this] p show ?thesis
          by (auto simp: same_except_def lib_kept_def)
      next
        case False
        with Inr show ?thesis by (simp add: a_def same_except_refl)
      qed
      show "\<not> (is_dir_at (tree w1) p \<and> reachable (tree w1) p)"
      proof (cases "os_path_exists (output_path M) w tg")
        case True
        with Inr have "os_remove (output_path M) tg w = Inr w1" by (simp add: a_def)
        from os_remove_node [OF this] p have "node_at (tree w1) p = None" by auto
        then show ?thesis by (auto simp: is_dir_at_node)
      next
        case False
        with Inr have w1: "w1 = w" by (simp add: a_def)
        from False p have "\<not> exists_at w p" by (simp add: os_path_exists_def)
        then have "\<not> (\<exists>wr. node_at (tree w) p = Some (Dir wr))"
          by (auto simp: exists_at_def)
        then show ?thesis by (auto simp: w1 is_dir_at_node)
      qed
    qed
    have s2: "same_except p w1 w'"
    proof (cases "library_method M")
      case None
      with b Inr show ?thesis by (simp add: process_file_body_def a_def same_except_refl)
    next
      case (Some m)
      show ?thesis
      proof (cases "m = ''link''")
        case True
        show ?thesis
        proof (cases "os_symlink (output_path M) s tg w1")
          case (Inl e)
          with b Inr Some True show ?thesis
            by (simp add: process_file_body_def a_def same_except_refl)
        next
          case w2: (Inr w2)
          with b Inr Some True
          have w': "w' = logging (Symlink_created (basename tg) s) w2"
            by (simp add: process_file_body_def a_def)
          from os_symlink_node [OF w2] p have "same_except p w1 w2"
            by (auto simp: same_except_def lib_kept_def)
          then show ?thesis unfolding w'
            using same_except_logging by (rule same_except_trans)
        qed
      next
        case nl: False
        show ?thesis
        proof (cases "m = ''copy''")
          case True
          show ?thesis
          proof (cases "shutil_copy (output_path M) s tg w1")
            case (Inl e)
            with b Inr Some nl True show ?thesis
              by (simp add: process_file_body_def a_def same_except_refl)
          next
            case w2: (Inr w2)
            with b Inr Some nl True
            have w': "w' = logging (File_copied (basename tg) s) w2"
              by (simp add: process_file_body_def a_def)
            from shutil_copy_write [OF w2 p nd] obtain c where "write_at p c w1 = Inr w2"
              by blast
            from write_at_node [OF this] have "same_except p w1 w2"
              by (simp add: same_except_def lib_kept_def)
            then show ?thesis unfolding w'
              using same_except_logging by (rule same_except_trans)
          qed
        next
          case False
          with b Inr Some nl have "w' = logging Invalid_method w1"
            by (simp add: process_file_body_def a_def)
          then show ?thesis by (simp add: same_except_logging)
        qed
      qed
    qed
    from s1 s2 show ?thesis by (rule same_except_trans)
  qed
qed

lemma process_file_frame:
  assumes "process_file M (s, tg, k, b, f) w = (r, w')"
    and "locate (output_path M) tg = Some p"
  shows "same_except p w w'"
proof -
  obtain r1 w1 where b: "process_file_body M s tg w = (r1, w1)"
    by (cases "process_file_body M s tg w")
  from process_file_body_frame [OF b assms(2)] have s: "same_except p w w1" .
  show ?thesis
  proof (cases r1)
    case None
    with assms(1) b s show ?thesis by (simp add: process_file_def)
  next
    case (Some e)
    with assms(1) b have "w' = logging (Error_creating (basename s) e) w1"
      by (simp add: process_file_def)
    with s same_except_logging show ?thesis by (auto intro: same_except_trans)
  qed
qed

section \<open>The executor\<close>

lemma changed_only_refl: "changed_only S w w"
  by (simp add: changed_only_def)

lemma changed_only_trans:
  "changed_only S w w' \<Longrightarrow> changed_only S w' w'' \<Longrightarrow> changed_only S w w''"
  by (simp add: changed_only_def)

lemma changed_only_mono: "changed_only S w w' \<Longrightarrow> S \<subseteq> S' \<Longrightarrow> changed_only S' w w'"
  by (auto simp: changed_only_def)

lemma changed_only_logging: "changed_only S w (logging e w)"
  by (simp add: changed_only_def logging_def)

lemma dirs_added_changed_only: "dirs_added w w' \<Longrightarrow> changed_only {} w w'"
  unfolding dirs_added_def changed_only_def
  by (metis is_file_simps(3) option.distinct(1) option.inject)

lemma same_except_changed_only: "same_except p w w' \<Longrightarrow> changed_only {p} w w'"
  by (simp add: same_except_def changed_only_def)

lemma deleted_only_changed_only: "deleted_only S w w' \<Longrightarrow> changed_only S w w'"
  unfolding deleted_only_def changed_only_def by metis

lemma dirs_removed_changed_only: "dirs_removed w w' \<Longrightarrow> changed_only {} w w'"
  unfolding dirs_removed_def changed_only_def
  by (metis is_file_simps(3) option.distinct(1) option.inject)

lemma deleted_only_refl: "deleted_only S w w"
  by (simp add: deleted_only_def)

lemma deleted_only_trans:
  "deleted_only S w w' \<Longrightarrow> deleted_only S w' w'' \<Longrightarrow> deleted_only S w w''"
  unfolding deleted_only_def by metis

lemma deleted_only_mono: "deleted_only S w w' \<Longrightarrow> S \<subseteq> S' \<Longrightarrow> deleted_only S' w w'"
  unfolding deleted_only_def by blast

lemma dirs_removed_refl: "dirs_removed w w"
  by (simp add: dirs_removed_def)

lemma dirs_removed_trans: "dirs_removed w w' \<Longrightarrow> dirs_removed w' w'' \<Longrightarrow> dirs_removed w w''"
  unfolding dirs_removed_def by metis

lemma run_all_rel:
  assumes rf: "\<And>w. R w w" and tr: "\<And>a b c. R a b \<Longrightarrow> R b c \<Longrightarrow> R a c"
    and step: "\<And>x w r w'. x \<in> set xs \<Longrightarrow> task x w = (r, w') \<Longrightarrow> R w w'"
    and run: "run_all task xs w = (r, w')"
  shows "R w w'"
  using run step
proof (induction xs arbitrary: w r)
  case Nil
  then show ?case by (simp add: rf)
next
  case (Cons x xs)
  obtain r1 w1 where t: "task x w = (r1, w1)" by (cases "task x w")
  obtain r2 w2 where u: "run_all task xs w1 = (r2, w2)" by (cases "run_all task xs w1")
  from Cons.prems(1) t u have w': "w' = w2" by simp
  from u w' have u': "run_all task xs w1 = (r2, w')" by simp
  have "R w w1" using t by (intro Cons.prems(2) [of x]) simp_all
  moreover have "R w1 w'"
  proof (rule Cons.IH [OF u'])
    fix y a r' b
    assume "y \<in> set xs" "task y a = (r', b)"
    then show "R a b" using Cons.prems(2) [of y a r' b] by simp
  qed
  ultimately show ?case by (rule tr)
qed

lemma run_all_None:
  "run_all task (x # xs) w = (None, w') \<Longrightarrow>
   \<exists>w1. task x w = (None, w1) \<and> run_all task xs w1 = (None, w')"
  by (auto split: prod.splits option.splits)

lemma remove_task_frame:
  assumes "remove_task M s w = (r, w')"
  shows "deleted_only (located (output_path M) [s]) w w'"
proof (cases "os_remove (output_path M) s w")
  case (Inl e)
  with assms show ?thesis by (auto simp: remove_task_def deleted_only_def logging_def)
next
  case (Inr w1)
  with assms have w': "w' = logging (Removing (basename s)) w1"
    by (simp add: remove_task_def)
  from os_remove_node [OF Inr] show ?thesis
    unfolding w' by (auto simp: deleted_only_def logging_def located_def split: if_splits)
qed

lemma remove_task_done:
  assumes "remove_task M s w = (None, w')"
  shows "\<exists>p. locate (output_path M) s = Some p \<and> node_at (tree w') p = None"
proof (cases "os_remove (output_path M) s w")
  case (Inl e)
  with assms show ?thesis by (simp add: remove_task_def)
next
  case (Inr w1)
  with assms have w': "w' = logging (Removing (basename s)) w1"
    by (simp add: remove_task_def)
  from os_remove_node [OF Inr] show ?thesis
    unfolding w' by (auto simp: logging_def)
qed

lemma remove_all_frame:
  assumes "run_all (remove_task M) xs w = (r, w')"
  shows "deleted_only (located (output_path M) xs) w w'"
proof (rule run_all_rel [where task = "remove_task M" and xs = xs, OF _ _ _ assms])
  show "deleted_only (located (output_path M) xs) a a" for a by (rule deleted_only_refl)
  show "deleted_only (located (output_path M) xs) a c"
    if "deleted_only (located (output_path M) xs) a b" "deleted_only (located (output_path M) xs) b c"
    for a b c using that by (rule deleted_only_trans)
  show "deleted_only (located (output_path M) xs) a b"
    if "x \<in> set xs" "remove_task M x a = (r', b)" for x a r' b
  proof (rule deleted_only_mono [OF remove_task_frame [OF that(2)]])
    show "located (output_path M) [x] \<subseteq> located (output_path M) xs"
      using that(1) by (auto simp: located_def)
  qed
qed

lemma remove_all_done:
  "run_all (remove_task M) xs w = (None, w') \<Longrightarrow>
   \<forall>p \<in> located (output_path M) xs. node_at (tree w') p = None"
proof (induction xs arbitrary: w)
  case Nil
  then show ?case by (simp add: located_def)
next
  case (Cons x xs)
  from run_all_None [OF Cons.prems] obtain w1 where t: "remove_task M x w = (None, w1)"
    and u: "run_all (remove_task M) xs w1 = (None, w')" by blast
  from remove_task_done [OF t] obtain p where p: "locate (output_path M) x = Some p"
    "node_at (tree w1) p = None" by blast
  from remove_all_frame [OF u] p(2) have "node_at (tree w') p = None"
    unfolding deleted_only_def by metis
  with p(1) Cons.IH [OF u] show ?case by (auto simp: located_def)
qed

section \<open>Saving and sweeping\<close>

lemma file_at_changed_only: "changed_only S w w' \<Longrightarrow> p \<notin> S \<Longrightarrow> file_at w' p = file_at w p"
  unfolding changed_only_def file_at_def by (metis is_file_simps(1))

lemma process_all_frame:
  assumes run: "run_all (process_file M) tp w = (r, w')"
    and loc: "\<forall>item \<in> set tp. \<exists>p. locate (output_path M) (fst (snd item)) = Some p"
  shows "changed_only (located (output_path M) (map (fst \<circ> snd) tp)) w w'"
proof (rule run_all_rel [where task = "process_file M" and xs = tp, OF _ _ _ run])
  let ?S = "located (output_path M) (map (fst \<circ> snd) tp)"
  show "changed_only ?S a a" for a by (rule changed_only_refl)
  show "changed_only ?S a c" if "changed_only ?S a b" "changed_only ?S b c" for a b c
    using that by (rule changed_only_trans)
  show "changed_only ?S a b" if x: "x \<in> set tp" and t: "process_file M x a = (r', b)" for x a r' b
  proof -
    obtain s tg k bk f where xx: "x = (s, tg, k, bk, f)" by (cases x) auto
    from loc x xx obtain p where p: "locate (output_path M) tg = Some p" by fastforce
    from t xx have "process_file M (s, tg, k, bk, f) a = (r', b)" by simp
    from process_file_frame [OF this p] have "changed_only {p} a b"
      by (rule same_except_changed_only)
    moreover have "{p} \<subseteq> ?S"
      using p x xx by (force simp: located_def)
    ultimately show ?thesis by (rule changed_only_mono)
  qed
qed

lemma os_makedirs_changed_only:
  assumes "os_makedirs out s w = Inr w'"
  shows "changed_only {} w w' \<and> lib w' = lib w
         \<and> (\<forall>p k. is_file k \<longrightarrow> node_at (tree w) p = Some k \<longrightarrow> node_at (tree w') p = Some k)"
proof -
  from os_makedirs_node [OF assms] have l: "lib w' = lib w"
    and n: "\<And>q. node_at (tree w') q = node_at (tree w) q
                \<or> (node_at (tree w) q = None \<and> node_at (tree w') q = Some (Dir True))"
    by auto
  have "changed_only {} w w'"
    unfolding changed_only_def using n by (metis is_file_simps(3) option.distinct(1) option.inject)
  moreover have "node_at (tree w') p = Some k" if "node_at (tree w) p = Some k" for p k
    using n [of p] that by auto
  ultimately show ?thesis using l by blast
qed

lemma save_metadata_cache_frame:
  assumes "save_metadata_cache M c w = (r, w')"
  shows "changed_only {[''.metadata_cache.json'']} w w'
         \<and> (file_at w [''.metadata_cache.json''] \<longrightarrow> file_at w' [''.metadata_cache.json''])
         \<and> (r = None \<longrightarrow> read_at w' [''.metadata_cache.json''] = Inr (Cache_json c))"
proof (cases "os_makedirs (output_path M) (dirname (metadata_cache_file M)) w")
  case (Inl e)
  with assms show ?thesis by (auto simp: save_metadata_cache_def changed_only_refl)
next
  case (Inr w1)
  from os_makedirs_changed_only [OF Inr] have c1: "changed_only {} w w1"
    by simp
  then have k1: "file_at w [''.metadata_cache.json''] \<Longrightarrow> file_at w1 [''.metadata_cache.json'']"
    by (simp add: file_at_changed_only)
  from c1 have c1': "changed_only {[''.metadata_cache.json'']} w w1"
    by (rule changed_only_mono) simp
  show ?thesis
  proof (cases "write_at [''.metadata_cache.json''] (Cache_json c) w1")
    case (Inl e)
    with assms Inr have "r = Some e" "w' = w1"
      by (simp_all add: save_metadata_cache_def cache_pos)
    with c1' k1 show ?thesis by simp
  next
    case w2: (Inr w2)
    with assms Inr have r: "r = None" "w' = w2"
      by (simp_all add: save_metadata_cache_def cache_pos)
    from write_at_node [OF w2]
    have rd: "read_at w2 [''.metadata_cache.json''] = Inr (Cache_json c)"
      and o: "\<And>q. q \<noteq> [''.metadata_cache.json''] \<Longrightarrow> node_at (tree w2) q = node_at (tree w1) q"
      and f: "\<And>x. node_at (tree w1) [''.metadata_cache.json''] = Some (File x)
               \<Longrightarrow> node_at (tree w2) [''.metadata_cache.json''] = Some (File (Cache_json c))"
      by auto
    have "changed_only {[''.metadata_cache.json'']} w1 w2"
      using o by (simp add: changed_only_def)
    with c1' have "changed_only {[''.metadata_cache.json'']} w w2" by (rule changed_only_trans)
    moreover have "file_at w [''.metadata_cache.json''] \<longrightarrow> file_at w2 [''.metadata_cache.json'']"
      using k1 f by (auto simp: file_at_def)
    ultimately show ?thesis using r rd by simp
  qed
qed

lemma os_rmdir_frame:
  assumes "os_rmdir out s w = Inr w'"
  shows "dirs_removed w w' \<and> log w' = log w"
proof -
  from assms obtain p t' where r: "rmdir_at (tree w) p = Inr t'" and w': "w' = w\<lparr>tree := t'\<rparr>"
    by (auto simp: os_rmdir_def split: option.splits sum.splits)
  from r obtain wr where d: "node_at (tree w) p = Some (Dir wr)"
    by (auto simp: rmdir_at_def split: option.splits node.splits if_splits)
  from rmdir_at_node [OF r] d show ?thesis
    unfolding w' by (auto simp: dirs_removed_def)
qed

lemma sweep_names_frame:
  "sweep_names M here names w = (r, w') \<Longrightarrow> dirs_removed w w' \<and> log w' = log w"
proof (induction names arbitrary: w)
  case Nil
  then show ?case by (simp add: dirs_removed_refl)
next
  case (Cons nm names)
  define dp where "dp = path_join here nm"
  show ?case
  proof (cases "os_listdir (output_path M) dp w")
    case (Inl e)
    with Cons.prems show ?thesis by (simp add: dp_def Let_def dirs_removed_refl)
  next
    case (Inr entries)
    show ?thesis
    proof (cases "entries = [] \<and> \<not> endswith dp ''.git''")
      case True
      show ?thesis
      proof (cases "os_rmdir (output_path M) dp w")
        case (Inl e)
        with Cons.prems Inr True show ?thesis by (simp add: dp_def Let_def dirs_removed_refl)
      next
        case w1: (Inr w1)
        with Cons.prems Inr True have "sweep_names M here names w1 = (r, w')"
          by (simp add: dp_def Let_def)
        from Cons.IH [OF this] os_rmdir_frame [OF w1] show ?thesis
          by (auto intro: dirs_removed_trans)
      qed
    next
      case False
      with Cons.prems Inr have "sweep_names M here names w = (r, w')"
        by (auto simp: dp_def Let_def)
      then show ?thesis by (rule Cons.IH)
    qed
  qed
qed

lemma sweep_frame: "sweep M triples w = (r, w') \<Longrightarrow> dirs_removed w w' \<and> log w' = log w"
proof (induction triples arbitrary: w)
  case Nil
  then show ?case by (simp add: dirs_removed_refl)
next
  case (Cons tr triples)
  obtain here names where tr: "tr = (here, names)" by (cases tr)
  obtain r1 w1 where s: "sweep_names M here names w = (r1, w1)"
    by (cases "sweep_names M here names w")
  from sweep_names_frame [OF s] have d1: "dirs_removed w w1" "log w1 = log w" by simp_all
  show ?case
  proof (cases r1)
    case None
    with Cons.prems tr s have "sweep M triples w1 = (r, w')" by simp
    from Cons.IH [OF this] d1 show ?thesis by (auto intro: dirs_removed_trans)
  next
    case (Some e)
    with Cons.prems tr s d1 show ?thesis by simp
  qed
qed

lemma read_at_dirs_removed:
  assumes d: "dirs_removed w w'" and r: "read_at w p = Inr c"
  shows "read_at w' p = Inr c"
proof -
  from r obtain k where k: "node_at (tree w) p = Some k" "is_file k"
    by (auto simp: read_at_def split: option.splits node.splits)
  from d have "node_at (tree w') p = node_at (tree w) p
      \<or> (node_at (tree w') p = None \<and> (\<exists>wr. node_at (tree w) p = Some (Dir wr)))"
    by (simp add: dirs_removed_def)
  with k have "node_at (tree w') p = node_at (tree w) p" by auto
  moreover from d have "lib w' = lib w" by (simp add: dirs_removed_def)
  ultimately show ?thesis using r
    by (auto simp: read_at_def split: option.splits node.splits)
qed

section \<open>The cache after the pass\<close>

lemma read_at_same: "tree w' = tree w \<Longrightarrow> lib w' = lib w \<Longrightarrow> read_at w' p = read_at w p"
  by (auto simp: read_at_def split: option.splits node.splits)

lemma execute_saved:
  assumes "execute M db tag tp tr w = (r, w')"
    and "r = None \<or> (\<exists>e. r = Some (Sweep, e))"
  shows "read_at w' [''.metadata_cache.json'']
         = Inr (Cache_json (map (\<lambda>(k, v). (str_int k, v)) (get_metadata_from_db db tag)))"
proof -
  let ?c = "map (\<lambda>(k, v). (str_int k, v)) (get_metadata_from_db db tag)"
  obtain r1 w1 where p: "run_all (process_file M) tp w = (r1, w1)"
    by (cases "run_all (process_file M) tp w")
  obtain r2 w2 where d: "run_all (remove_task M) tr w1 = (r2, w2)"
    by (cases "run_all (remove_task M) tr w1")
  obtain r3 w3 where s: "save_metadata_cache M ?c w2 = (r3, w3)"
    by (cases "save_metadata_cache M ?c w2")
  obtain r4 w4 where sw: "sweep M (os_walk_bottom_up (output_path M) (tree w3)) w3 = (r4, w4)"
    by (cases "sweep M (os_walk_bottom_up (output_path M) (tree w3)) w3")
  from assms p d s sw have n: "r1 = None" "r2 = None" "r3 = None"
    by (auto simp: execute_def split: option.splits)
  from save_metadata_cache_frame [OF s] n
  have rd: "read_at w3 [''.metadata_cache.json''] = Inr (Cache_json ?c)" by simp
  from sweep_frame [OF sw] have "dirs_removed w3 w4" by simp
  then have "read_at w4 [''.metadata_cache.json''] = Inr (Cache_json ?c)"
    using rd by (rule read_at_dirs_removed)
  moreover have "tree w' = tree w4 \<and> lib w' = lib w4"
    using assms(1) p d s sw n by (auto simp: execute_def logging_def split: option.splits)
  ultimately show ?thesis using read_at_same [of w' w4 "[''.metadata_cache.json'']"] by simp
qed

text \<open>
  C6: when the pass has saved the cache (it ends without exception, or the exception
  is raised by the sweep that follows the save), the cache file holds the whole current
  catalog with every book id as a string key, whatever it held before and whatever
  happened to the single materializations.
\<close>

theorem saved_cache_is_snapshot:
  assumes "fst (sync_tag M db tag w) = None \<or> (\<exists>e. fst (sync_tag M db tag w) = Some (Sweep, e))"
  shows "json_load_file (output_path M) (metadata_cache_file M) (snd (sync_tag M db tag w))
         = Inr (map (\<lambda>(k, v). (str_int k, v)) (get_metadata_from_db db tag))"
proof -
  obtain r0 w0 where rc: "reconcile M db tag w = (r0, w0)" by (cases "reconcile M db tag w")
  from assms rc obtain tp tr where r0: "r0 = Inr (tp, tr)"
    by (cases r0) (auto simp: sync_tag_def)
  obtain r w' where ex: "execute M db tag tp tr w0 = (r, w')"
    by (cases "execute M db tag tp tr w0")
  from rc r0 ex have st: "sync_tag M db tag w = (r, w')" by (simp add: sync_tag_def)
  with assms have "r = None \<or> (\<exists>e. r = Some (Sweep, e))" by simp
  from execute_saved [OF ex this] st show ?thesis
    by (simp add: json_load_file_def cache_pos)
qed

theorem saved_cache_is_snapshot_witness:
  "(fst (sync_tag copy_manager [row_annual] ''Comics'' synced_world) = None
    \<or> (\<exists>e. fst (sync_tag copy_manager [row_annual] ''Comics'' synced_world) = Some (Sweep, e)))
   \<and> json_load_file (output_path copy_manager) (metadata_cache_file copy_manager) synced_world
       = Inr [(''1'', book_batman)]
   \<and> os_path_exists ''/out'' (snd (sync_tag copy_manager [row_annual] ''Comics'' synced_world))
        ''/out/No Series/Annual.cbr'' = False
   \<and> json_load_file (output_path copy_manager) (metadata_cache_file copy_manager)
         (snd (sync_tag copy_manager [row_annual] ''Comics'' synced_world))
       = Inr [(''2'', book_annual)]"
proof -
  have h: "fst (sync_tag copy_manager [row_annual] ''Comics'' synced_world) = None"
    by code_simp
  have b: "json_load_file (output_path copy_manager) (metadata_cache_file copy_manager) synced_world
       = Inr [(''1'', book_batman)]"
    by code_simp
  have f: "os_path_exists ''/out'' (snd (sync_tag copy_manager [row_annual] ''Comics'' synced_world))
        ''/out/No Series/Annual.cbr'' = False"
    by code_simp
  have s: "map (\<lambda>(k, v). (str_int k, v)) (get_metadata_from_db [row_annual] ''Comics'')
       = [(''2'', book_annual)]"
    by code_simp
  from saved_cache_is_snapshot [of copy_manager "[row_annual]" "''Comics''" synced_world] h b f s
  show ?thesis by simp
qed

end
